theory Spec2Isabelle
  imports Complex_Main "HOL-Library.Multiset"
begin

section \<open>Orders and trades (package models)\<close>

text \<open>
  Identifiers come from \<^verbatim>\<open>uuid.New()\<close> and timestamps from \<^verbatim>\<open>time.Now()\<close>. Both are
  inputs of the model: every operation that reads the clock takes the instant \<open>now\<close>, and
  every operation that mints an identifier takes it as an argument. Prices and quantities are
  \<^verbatim>\<open>float64\<close> in the source; they are idealised to \<^typ>\<open>real\<close>, so rounding, infinities
  and NaN are outside the model.
\<close>

type_synonym uuid = nat
type_synonym time = nat

datatype OrderType = OrderTypeMarket | OrderTypeLimit | OrderTypeStopLoss

datatype OrderSide = OrderSideBuy | OrderSideSell

datatype OrderStatus =
  OrderStatusPending | OrderStatusPartial | OrderStatusFilled | OrderStatusCancelled

record Order =
  ID :: uuid
  Symbol :: string
  Type :: OrderType
  Side :: OrderSide
  Quantity :: real
  Price :: real
  Status :: OrderStatus
  FilledQuantity :: real
  FilledPrice :: real
  SubmittedAt :: time
  FilledAt :: "time option"
  CancelledAt :: "time option"

definition NewOrder ::
  "uuid \<Rightarrow> time \<Rightarrow> string \<Rightarrow> OrderType \<Rightarrow> OrderSide \<Rightarrow> real \<Rightarrow> real \<Rightarrow> Order" where
  "NewOrder uid now symbol orderType side quantity price =
     \<lparr> ID = uid, Symbol = symbol, Type = orderType, Side = side,
       Quantity = quantity, Price = price, Status = OrderStatusPending,
       FilledQuantity = 0, FilledPrice = 0, SubmittedAt = now,
       FilledAt = None, CancelledAt = None \<rparr>"

definition RemainingQuantity :: "Order \<Rightarrow> real" where
  "RemainingQuantity ord = Quantity ord - FilledQuantity ord"

definition IsFilled :: "Order \<Rightarrow> bool" where
  "IsFilled ord \<longleftrightarrow> FilledQuantity ord \<ge> Quantity ord"

text \<open>
  \<^verbatim>\<open>Order.Fill\<close> has no result and no guard: it adds to the filled quantity, recomputes the
  average when the new filled quantity is positive, and then sets the status.
\<close>

definition Fill :: "time \<Rightarrow> real \<Rightarrow> real \<Rightarrow> Order \<Rightarrow> Order" where
  "Fill now quantity price ord =
     (let o1 = ord \<lparr> FilledQuantity := FilledQuantity ord + quantity \<rparr>;
          o2 = (if FilledQuantity o1 > 0
                then o1 \<lparr> FilledPrice :=
                       ((FilledPrice o1 * (FilledQuantity o1 - quantity)) + (price * quantity))
                         / FilledQuantity o1 \<rparr>
                else o1)
      in if IsFilled o2 then o2 \<lparr> Status := OrderStatusFilled, FilledAt := Some now \<rparr>
         else if FilledQuantity o2 > 0 then o2 \<lparr> Status := OrderStatusPartial \<rparr>
         else o2)"

record Trade =
  TradeID :: uuid
  TradeSymbol :: string
  BuyOrderID :: uuid
  SellOrderID :: uuid
  TradePrice :: real
  TradeQuantity :: real
  Timestamp :: time

definition NewTrade ::
  "uuid \<Rightarrow> time \<Rightarrow> string \<Rightarrow> uuid \<Rightarrow> uuid \<Rightarrow> real \<Rightarrow> real \<Rightarrow> Trade" where
  "NewTrade uid now symbol buyOrderID sellOrderID price quantity =
     \<lparr> TradeID = uid, TradeSymbol = symbol, BuyOrderID = buyOrderID,
       SellOrderID = sellOrderID, TradePrice = price, TradeQuantity = quantity,
       Timestamp = now \<rparr>"

section \<open>Price levels and their heap (package orderbook)\<close>

text \<open>
  A level owns the FIFO of the orders resting at its price. The source keeps pointers to the
  orders; inside one side of a book no order is referenced twice, so the FIFO holds the
  orders themselves.
\<close>

record PriceLevel =
  LevelPrice :: real
  Orders :: "Order list"

record PriceLevelHeap =
  Levels :: "PriceLevel list"
  IsBid :: bool

definition Len :: "PriceLevelHeap \<Rightarrow> nat" where
  "Len h = length (Levels h)"

definition Less :: "PriceLevelHeap \<Rightarrow> nat \<Rightarrow> nat \<Rightarrow> bool" where
  "Less h i j \<longleftrightarrow>
     (if IsBid h then LevelPrice (Levels h ! i) > LevelPrice (Levels h ! j)
      else LevelPrice (Levels h ! i) < LevelPrice (Levels h ! j))"

definition Swap :: "PriceLevelHeap \<Rightarrow> nat \<Rightarrow> nat \<Rightarrow> PriceLevelHeap" where
  "Swap h i j = h \<lparr> Levels := (Levels h) [i := Levels h ! j, j := Levels h ! i] \<rparr>"

definition Push :: "PriceLevelHeap \<Rightarrow> PriceLevel \<Rightarrow> PriceLevelHeap" where
  "Push h x = h \<lparr> Levels := Levels h @ [x] \<rparr>"

definition Pop :: "PriceLevelHeap \<Rightarrow> PriceLevel \<times> PriceLevelHeap" where
  "Pop h = (last (Levels h), h \<lparr> Levels := butlast (Levels h) \<rparr>)"

definition Peek :: "PriceLevelHeap \<Rightarrow> PriceLevel option" where
  "Peek h = (if Len h = 0 then None else Some (Levels h ! 0))"

definition NewBidHeap :: PriceLevelHeap where
  "NewBidHeap = \<lparr> Levels = [], IsBid = True \<rparr>"

definition NewAskHeap :: PriceLevelHeap where
  "NewAskHeap = \<lparr> Levels = [], IsBid = False \<rparr>"

subsection \<open>The binary heap of the Go library (container/heap)\<close>

text \<open>
  \<^verbatim>\<open>heap.Push\<close> and \<^verbatim>\<open>heap.Pop\<close> are library code, written here as the library has them:
  \<open>heap_up\<close> and \<open>heap_down\<close> are its sift loops over the \<open>Less\<close> and \<open>Swap\<close> of the
  level heap. The parent of \<open>j\<close> is \<open>(j - 1) / 2\<close>; at \<open>j = 0\<close> Go's truncating division and
  the cut-off subtraction of \<^typ>\<open>nat\<close> both give 0. \<open>heap_down\<close> also reports in the
  library whether the element moved; no caller here reads that.
\<close>

function heap_up :: "PriceLevelHeap \<Rightarrow> nat \<Rightarrow> PriceLevelHeap" where
  "heap_up h j =
     (let i = (j - 1) div 2 in
      if i = j \<or> \<not> Less h j i then h else heap_up (Swap h i j) i)"
  by pat_completeness auto

termination
  by (relation "measure (\<lambda>(h, j). j)") auto

function heap_down :: "PriceLevelHeap \<Rightarrow> nat \<Rightarrow> nat \<Rightarrow> PriceLevelHeap" where
  "heap_down h i n =
     (let j1 = 2 * i + 1 in
      if j1 \<ge> n then h
      else let j = (if j1 + 1 < n \<and> Less h (j1 + 1) j1 then j1 + 1 else j1) in
           if \<not> Less h j i then h else heap_down (Swap h i j) j n)"
  by pat_completeness auto

termination
  by (relation "measure (\<lambda>(h, i, n). n - i)") (auto split: if_splits)

definition heap_Push :: "PriceLevelHeap \<Rightarrow> PriceLevel \<Rightarrow> PriceLevelHeap" where
  "heap_Push h x = (let h1 = Push h x in heap_up h1 (Len h1 - 1))"

text \<open>
  \<^verbatim>\<open>heap.Pop\<close> on an empty heap panics in Go (index out of range); every call in the engine
  is made with at least one level.
\<close>

definition heap_Pop :: "PriceLevelHeap \<Rightarrow> PriceLevel \<times> PriceLevelHeap" where
  "heap_Pop h = (let n = Len h - 1 in Pop (heap_down (Swap h 0 n) 0 n))"

subsection \<open>Adding an order to one side\<close>

text \<open>
  The scan of \<^verbatim>\<open>PriceLevelHeap.AddOrder\<close>: the first level whose price equals the order's
  gets the order appended; \<open>None\<close> when no level has that price.
\<close>

fun appendAtPrice :: "Order \<Rightarrow> PriceLevel list \<Rightarrow> PriceLevel list option" where
  "appendAtPrice ord [] = None"
| "appendAtPrice ord (level # rest) =
     (if LevelPrice level = Price ord
      then Some (level \<lparr> Orders := Orders level @ [ord] \<rparr> # rest)
      else map_option ((#) level) (appendAtPrice ord rest))"

definition AddOrder :: "PriceLevelHeap \<Rightarrow> Order \<Rightarrow> PriceLevelHeap" where
  "AddOrder h ord =
     (case appendAtPrice ord (Levels h) of
        Some ls \<Rightarrow> h \<lparr> Levels := ls \<rparr>
      | None \<Rightarrow> heap_Push h \<lparr> LevelPrice = Price ord, Orders = [ord] \<rparr>)"

section \<open>The order book\<close>

text \<open>
  \<open>orders\<close> is the identity index \<^verbatim>\<open>map[uuid.UUID]*models.Order\<close>. The model stores the
  order as it is when indexed; the fill progress of a resting order is read from its FIFO
  entry.
\<close>

record OrderBook =
  BookSymbol :: string
  Bids :: PriceLevelHeap
  Asks :: PriceLevelHeap
  LastPrice :: real
  LastTrade :: "Trade option"
  BookTimestamp :: time
  orders :: "uuid \<rightharpoonup> Order"

definition NewOrderBook :: "time \<Rightarrow> string \<Rightarrow> OrderBook" where
  "NewOrderBook now symbol =
     \<lparr> BookSymbol = symbol, Bids = NewBidHeap, Asks = NewAskHeap, LastPrice = 0,
       LastTrade = None, BookTimestamp = now, orders = Map.empty \<rparr>"

definition BookAddOrder :: "time \<Rightarrow> OrderBook \<Rightarrow> Order \<Rightarrow> OrderBook" where
  "BookAddOrder now ob ord =
     (let ob1 = ob \<lparr> orders := (orders ob) (ID ord \<mapsto> ord) \<rparr>;
          ob2 = (if Side ord = OrderSideBuy
                 then ob1 \<lparr> Bids := AddOrder (Bids ob1) ord \<rparr>
                 else ob1 \<lparr> Asks := AddOrder (Asks ob1) ord \<rparr>)
      in ob2 \<lparr> BookTimestamp := now \<rparr>)"

definition GetBestBid :: "OrderBook \<Rightarrow> real" where
  "GetBestBid ob = (if Len (Bids ob) = 0 then 0 else LevelPrice (Levels (Bids ob) ! 0))"

definition GetBestAsk :: "OrderBook \<Rightarrow> real" where
  "GetBestAsk ob = (if Len (Asks ob) = 0 then 0 else LevelPrice (Levels (Asks ob) ! 0))"

section \<open>The matching engine\<close>

record MatchingEngine =
  orderBooks :: "string \<rightharpoonup> OrderBook"
  trades :: "Trade list"

definition NewMatchingEngine :: MatchingEngine where
  "NewMatchingEngine = \<lparr> orderBooks = Map.empty, trades = [] \<rparr>"

definition GetOrCreateOrderBook ::
  "time \<Rightarrow> MatchingEngine \<Rightarrow> string \<Rightarrow> MatchingEngine \<times> OrderBook" where
  "GetOrCreateOrderBook now me symbol =
     (case orderBooks me symbol of
        Some ob \<Rightarrow> (me, ob)
      | None \<Rightarrow> (let ob = NewOrderBook now symbol
                 in (me \<lparr> orderBooks := (orderBooks me) (symbol \<mapsto> ob) \<rparr>, ob)))"

definition GetOrderBook :: "MatchingEngine \<Rightarrow> string \<Rightarrow> OrderBook option" where
  "GetOrderBook me symbol = orderBooks me symbol"

definition fmin :: "real \<Rightarrow> real \<Rightarrow> real" where
  "fmin a b = (if a < b then a else b)"

subsection \<open>Matching inside the best level\<close>

text \<open>
  The inner loop of both matching functions works on the incoming order, on the FIFO of the
  best opposite level, on the list of trades made so far and on the book's last price and
  last trade. \<open>matchStep\<close> is its body up to the removal of a filled resting order (the same
  text in both functions). The trade made when \<open>k\<close> trades exist gets the identifier
  \<open>u + k\<close>, \<open>u\<close> being the first identifier free for this submission.
\<close>

record LevelState =
  lvOrder :: Order
  lvOrders :: "Order list"
  lvTrades :: "Trade list"
  lvLastPrice :: real
  lvLastTrade :: "Trade option"

definition matchStep :: "time \<Rightarrow> uuid \<Rightarrow> LevelState \<Rightarrow> LevelState" where
  "matchStep now u s =
     (let ord = lvOrder s;
          oppositeOrder = hd (lvOrders s);
          tradeQty = fmin (RemainingQuantity ord) (RemainingQuantity oppositeOrder);
          tradePrice = Price oppositeOrder;
          trade = (if Side ord = OrderSideBuy
                   then NewTrade (u + length (lvTrades s)) now (Symbol ord)
                          (ID ord) (ID oppositeOrder) tradePrice tradeQty
                   else NewTrade (u + length (lvTrades s)) now (Symbol ord)
                          (ID oppositeOrder) (ID ord) tradePrice tradeQty);
          ord' = Fill now tradeQty tradePrice ord;
          oppositeOrder' = Fill now tradeQty tradePrice oppositeOrder
      in \<lparr> lvOrder = ord',
           lvOrders = (if IsFilled oppositeOrder' then tl (lvOrders s)
                       else oppositeOrder' # tl (lvOrders s)),
           lvTrades = lvTrades s @ [trade],
           lvLastPrice = tradePrice,
           lvLastTrade = Some trade \<rparr>)"

text \<open>
  Facts about \<open>Fill\<close> and one step of the loop, used to show that the loops end.
\<close>

lemma Fill_FilledQuantity [simp]:
  "FilledQuantity (Fill now q p ord) = FilledQuantity ord + q"
  by (simp add: Fill_def Let_def)

lemma Fill_frame [simp]:
  "ID (Fill now q p ord) = ID ord"
  "Symbol (Fill now q p ord) = Symbol ord"
  "Type (Fill now q p ord) = Type ord"
  "Side (Fill now q p ord) = Side ord"
  "Quantity (Fill now q p ord) = Quantity ord"
  "Price (Fill now q p ord) = Price ord"
  "SubmittedAt (Fill now q p ord) = SubmittedAt ord"
  "CancelledAt (Fill now q p ord) = CancelledAt ord"
  by (simp_all add: Fill_def Let_def)

lemma Fill_Remaining [simp]:
  "RemainingQuantity (Fill now q p ord) = RemainingQuantity ord - q"
  by (simp add: RemainingQuantity_def)

lemma IsFilled_Remaining: "IsFilled ord \<longleftrightarrow> RemainingQuantity ord \<le> 0"
  by (simp add: IsFilled_def RemainingQuantity_def)

lemma matchStep_measure:
  assumes "lvOrders s \<noteq> []" "RemainingQuantity (lvOrder s) > 0"
  shows "2 * length (lvOrders (matchStep now u s))
           + (if RemainingQuantity (lvOrder (matchStep now u s)) > 0 then 1 else 0)
         < 2 * length (lvOrders s) + (1::nat)"
  using assms
  by (cases "lvOrders s") (auto simp: matchStep_def Let_def IsFilled_Remaining fmin_def)

text \<open>
  The inner loop of \<^verbatim>\<open>matchLimitOrder\<close>: while the level has orders and the incoming
  order has quantity left.
\<close>

function matchLimitLevel :: "time \<Rightarrow> uuid \<Rightarrow> LevelState \<Rightarrow> LevelState" where
  "matchLimitLevel now u s =
     (if length (lvOrders s) > 0 \<and> RemainingQuantity (lvOrder s) > 0
      then matchLimitLevel now u (matchStep now u s)
      else s)"
  by pat_completeness auto

termination
  apply (relation "measure (\<lambda>(now, u, s). 2 * length (lvOrders s)
            + (if RemainingQuantity (lvOrder s) > 0 then 1 else 0))")
   apply simp
  using matchStep_measure by auto

text \<open>
  The inner loop of \<^verbatim>\<open>matchMarketOrder\<close>: the same, with a \<^verbatim>\<open>break\<close> once the incoming
  order is filled.
\<close>

function matchMarketLevel :: "time \<Rightarrow> uuid \<Rightarrow> LevelState \<Rightarrow> LevelState" where
  "matchMarketLevel now u s =
     (if length (lvOrders s) > 0 \<and> RemainingQuantity (lvOrder s) > 0
      then (let s' = matchStep now u s in
            if IsFilled (lvOrder s') then s' else matchMarketLevel now u s')
      else s)"
  by pat_completeness auto

termination
  apply (relation "measure (\<lambda>(now, u, s). 2 * length (lvOrders s)
            + (if RemainingQuantity (lvOrder s) > 0 then 1 else 0))")
   apply simp
  using matchStep_measure by auto

declare matchLimitLevel.simps [simp del] matchMarketLevel.simps [simp del]
declare heap_up.simps [simp del] heap_down.simps [simp del]

subsection \<open>Walking the opposite side\<close>

definition oppositeHeap :: "OrderBook \<Rightarrow> Order \<Rightarrow> PriceLevelHeap" where
  "oppositeHeap ob ord = (if Side ord = OrderSideBuy then Asks ob else Bids ob)"

definition setOppositeHeap :: "OrderBook \<Rightarrow> Order \<Rightarrow> PriceLevelHeap \<Rightarrow> OrderBook" where
  "setOppositeHeap ob ord h =
     (if Side ord = OrderSideBuy then ob \<lparr> Asks := h \<rparr> else ob \<lparr> Bids := h \<rparr>)"

text \<open>
  \<open>levelState\<close> is the state in which the inner loop starts on \<open>bestLevel\<close>.
  \<open>afterLevel\<close> puts its result into the book: \<open>bestLevel\<close> is the level at index 0 of the
  opposite heap (the inner loop does not reorder the heap), its FIFO is what the loop left,
  and an emptied level is removed with \<^verbatim>\<open>heap.Pop\<close>.
\<close>

definition levelState :: "OrderBook \<Rightarrow> Order \<Rightarrow> Trade list \<Rightarrow> PriceLevel \<Rightarrow> LevelState" where
  "levelState ob ord ts bestLevel =
     \<lparr> lvOrder = ord, lvOrders = Orders bestLevel, lvTrades = ts,
       lvLastPrice = LastPrice ob, lvLastTrade = LastTrade ob \<rparr>"

definition afterLevel :: "OrderBook \<Rightarrow> Order \<Rightarrow> LevelState \<Rightarrow> OrderBook" where
  "afterLevel ob ord s =
     (let h = oppositeHeap ob ord;
          h1 = h \<lparr> Levels := (Levels h) [0 := (Levels h ! 0) \<lparr> Orders := lvOrders s \<rparr>] \<rparr>;
          h2 = (if length (lvOrders s) = 0 then snd (heap_Pop h1) else h1)
      in (setOppositeHeap ob ord h2) \<lparr> LastPrice := lvLastPrice s, LastTrade := lvLastTrade s \<rparr>)"

lemma Swap_length [simp]: "length (Levels (Swap h i j)) = length (Levels h)"
  by (simp add: Swap_def)

lemma heap_down_length [simp]: "length (Levels (heap_down h i n)) = length (Levels h)"
  by (induction h i n rule: heap_down.induct) (subst heap_down.simps, simp add: Let_def)

lemma heap_Pop_length [simp]:
  "length (Levels (snd (heap_Pop h))) = length (Levels h) - 1"
  by (simp add: heap_Pop_def Pop_def Len_def Let_def)

lemma matchLimitLevel_exit:
  "lvOrders (matchLimitLevel now u s) = []
     \<or> RemainingQuantity (lvOrder (matchLimitLevel now u s)) \<le> 0"
  by (induction now u s rule: matchLimitLevel.induct) (subst (1 2) matchLimitLevel.simps, auto)

lemma matchMarketLevel_exit:
  "lvOrders (matchMarketLevel now u s) = []
     \<or> RemainingQuantity (lvOrder (matchMarketLevel now u s)) \<le> 0"
  by (induction now u s rule: matchMarketLevel.induct)
     (subst (1 2) matchMarketLevel.simps, auto simp: Let_def IsFilled_Remaining)

lemma matchStep_Side [simp]: "Side (lvOrder (matchStep now u s)) = Side (lvOrder s)"
  by (simp add: matchStep_def Let_def)

lemma matchLimitLevel_Side [simp]:
  "Side (lvOrder (matchLimitLevel now u s)) = Side (lvOrder s)"
  by (induction now u s rule: matchLimitLevel.induct) (subst matchLimitLevel.simps, auto)

lemma matchMarketLevel_Side [simp]:
  "Side (lvOrder (matchMarketLevel now u s)) = Side (lvOrder s)"
  by (induction now u s rule: matchMarketLevel.induct)
     (subst matchMarketLevel.simps, auto simp: Let_def)

lemma afterLevel_measure:
  assumes "Side (lvOrder s) = Side ord" "Len (oppositeHeap ob ord) > 0"
    and "lvOrders s = [] \<or> RemainingQuantity (lvOrder s) \<le> 0"
  shows "2 * Len (oppositeHeap (afterLevel ob ord s) (lvOrder s))
           + (if RemainingQuantity (lvOrder s) > 0 then 1 else 0)
         < 2 * Len (oppositeHeap ob ord) + (1::nat)"
  using assms
  by (auto simp: afterLevel_def oppositeHeap_def setOppositeHeap_def Let_def Len_def)

text \<open>The outer loop of \<^verbatim>\<open>matchLimitOrder\<close>.\<close>

function matchLimitLoop ::
  "time \<Rightarrow> uuid \<Rightarrow> OrderBook \<Rightarrow> Order \<Rightarrow> Trade list \<Rightarrow> OrderBook \<times> Order \<times> Trade list" where
  "matchLimitLoop now u ob ord ts =
     (if RemainingQuantity ord > 0 \<and> Len (oppositeHeap ob ord) > 0 then
        (case Peek (oppositeHeap ob ord) of
           None \<Rightarrow> (ob, ord, ts)
         | Some bestLevel \<Rightarrow>
             if length (Orders bestLevel) = 0 then (ob, ord, ts)
             else if Side ord = OrderSideBuy \<and> LevelPrice bestLevel > Price ord
               then (ob, ord, ts)
             else if Side ord = OrderSideSell \<and> LevelPrice bestLevel < Price ord
               then (ob, ord, ts)
             else (let s = matchLimitLevel now u (levelState ob ord ts bestLevel)
                   in matchLimitLoop now u (afterLevel ob ord s) (lvOrder s) (lvTrades s)))
      else (ob, ord, ts))"
  by pat_completeness auto

termination
proof (relation "measure (\<lambda>(now, u, ob, ord, ts). 2 * Len (oppositeHeap ob ord)
            + (if RemainingQuantity ord > 0 then 1 else 0))", goal_cases)
  case 1
  show ?case by simp
next
  case (2 now u ob ord ts bestLevel s)
  have "Side (lvOrder s) = Side ord"
    using 2 by (simp add: levelState_def)
  moreover have "lvOrders s = [] \<or> RemainingQuantity (lvOrder s) \<le> 0"
    using 2 matchLimitLevel_exit by simp
  ultimately show ?case
    using 2(1) afterLevel_measure [of s ord ob] by simp
qed

text \<open>
  The outer loop of \<^verbatim>\<open>matchMarketOrder\<close>: an empty best level is popped and the loop
  goes on; no price is checked.
\<close>

function matchMarketLoop ::
  "time \<Rightarrow> uuid \<Rightarrow> OrderBook \<Rightarrow> Order \<Rightarrow> Trade list \<Rightarrow> OrderBook \<times> Order \<times> Trade list" where
  "matchMarketLoop now u ob ord ts =
     (if RemainingQuantity ord > 0 \<and> Len (oppositeHeap ob ord) > 0 then
        (case Peek (oppositeHeap ob ord) of
           None \<Rightarrow> (ob, ord, ts)
         | Some bestLevel \<Rightarrow>
             if length (Orders bestLevel) = 0
             then matchMarketLoop now u
                    (setOppositeHeap ob ord (snd (heap_Pop (oppositeHeap ob ord)))) ord ts
             else (let s = matchMarketLevel now u (levelState ob ord ts bestLevel)
                   in matchMarketLoop now u (afterLevel ob ord s) (lvOrder s) (lvTrades s)))
      else (ob, ord, ts))"
  by pat_completeness auto

termination
proof (relation "measure (\<lambda>(now, u, ob, ord, ts). 2 * Len (oppositeHeap ob ord)
            + (if RemainingQuantity ord > 0 then 1 else 0))", goal_cases)
  case 1
  show ?case by simp
next
  case (2 now u ob ord ts bestLevel)
  then show ?case
    by (auto simp: oppositeHeap_def setOppositeHeap_def Len_def)
next
  case (3 now u ob ord ts bestLevel s)
  have "Side (lvOrder s) = Side ord"
    using 3 by (simp add: levelState_def)
  moreover have "lvOrders s = [] \<or> RemainingQuantity (lvOrder s) \<le> 0"
    using 3 matchMarketLevel_exit by simp
  ultimately show ?case
    using 3(1) afterLevel_measure [of s ord ob] by simp
qed

declare matchLimitLoop.simps [simp del] matchMarketLoop.simps [simp del]

definition matchMarketOrder ::
  "time \<Rightarrow> uuid \<Rightarrow> OrderBook \<Rightarrow> Order \<Rightarrow> OrderBook \<times> Order \<times> Trade list" where
  "matchMarketOrder now u ob ord = matchMarketLoop now u ob ord []"

definition matchLimitOrder ::
  "time \<Rightarrow> uuid \<Rightarrow> OrderBook \<Rightarrow> Order \<Rightarrow> OrderBook \<times> Order \<times> Trade list" where
  "matchLimitOrder now u ob ord =
     (case matchLimitLoop now u ob ord [] of
        (ob', ord', ts) \<Rightarrow>
          if RemainingQuantity ord' > 0 then (BookAddOrder now ob' ord', ord', ts)
          else (ob', ord', ts))"

text \<open>
  \<^verbatim>\<open>SubmitOrder\<close> returns the trades; the order is changed in place and the book is reached
  through the engine's map. The model returns the engine with the book written back, the
  order as the call leaves it, and the trades.
\<close>

definition SubmitOrder ::
  "time \<Rightarrow> uuid \<Rightarrow> MatchingEngine \<Rightarrow> Order \<Rightarrow> MatchingEngine \<times> Order \<times> Trade list" where
  "SubmitOrder now u me ord =
     (case GetOrCreateOrderBook now me (Symbol ord) of
        (me1, ob) \<Rightarrow>
          (case (case Type ord of
                   OrderTypeMarket \<Rightarrow> matchMarketOrder now u ob ord
                 | OrderTypeLimit \<Rightarrow> matchLimitOrder now u ob ord
                 | OrderTypeStopLoss \<Rightarrow>
                     matchLimitOrder now u ob (ord \<lparr> Type := OrderTypeLimit \<rparr>)) of
             (ob', ord', ts) \<Rightarrow>
               (me1 \<lparr> orderBooks := (orderBooks me1) (Symbol ord \<mapsto> ob'),
                      trades := (if length ts > 0 then trades me1 @ ts else trades me1) \<rparr>,
                ord', ts)))"

section \<open>The HTTP handler (cmd/api)\<close>

text \<open>
  \<^verbatim>\<open>submitOrder\<close> receives the decoded request. \<open>bindingOk\<close> is what the binding tags of
  \<^verbatim>\<open>OrderRequest\<close> demand (\<^verbatim>\<open>required\<close>, \<^verbatim>\<open>oneof\<close>, \<^verbatim>\<open>gt=0\<close>); a failure of either
  check answers 400 before any order exists.
\<close>

record OrderRequest =
  reqSymbol :: string
  reqType :: string
  reqSide :: string
  reqQuantity :: real
  reqPrice :: real

datatype HttpError = StatusBadRequest string

record OrderResponse =
  respOrder :: Order
  respTrades :: "Trade list"

definition bindingOk :: "OrderRequest \<Rightarrow> bool" where
  "bindingOk req \<longleftrightarrow>
     reqSymbol req \<noteq> [] \<and>
     reqType req \<in> {''market'', ''limit'', ''stop_loss''} \<and>
     reqSide req \<in> {''buy'', ''sell''} \<and>
     reqQuantity req \<noteq> 0 \<and> reqQuantity req > 0"

definition toOrderType :: "string \<Rightarrow> OrderType" where
  "toOrderType t =
     (if t = ''market'' then OrderTypeMarket
      else if t = ''limit'' then OrderTypeLimit else OrderTypeStopLoss)"

definition toOrderSide :: "string \<Rightarrow> OrderSide" where
  "toOrderSide t = (if t = ''buy'' then OrderSideBuy else OrderSideSell)"

definition submitOrder ::
  "time \<Rightarrow> uuid \<Rightarrow> uuid \<Rightarrow> MatchingEngine \<Rightarrow> OrderRequest
     \<Rightarrow> MatchingEngine \<times> (HttpError + OrderResponse)" where
  "submitOrder now uid u engine req =
     (if \<not> bindingOk req then (engine, Inl (StatusBadRequest ''binding''))
      else if (reqType req = ''limit'' \<or> reqType req = ''stop_loss'') \<and> reqPrice req \<le> 0
        then (engine,
              Inl (StatusBadRequest ''price is required for limit and stop_loss orders''))
      else (let ord = NewOrder uid now (reqSymbol req) (toOrderType (reqType req))
                        (toOrderSide (reqSide req)) (reqQuantity req) (reqPrice req)
            in case SubmitOrder now u engine ord of
                 (engine', ord', ts) \<Rightarrow>
                   (engine', Inr \<lparr> respOrder = ord', respTrades = ts \<rparr>)))"

section \<open>Loop invariants\<close>

text \<open>
  Each loop of the engine has a rule: a property that holds before the loop and is kept by
  one turn of its body holds when the loop ends. For the limit loop the rule also gives the
  reason for stopping, \<open>limitStops\<close>; for the market loop, that the order is filled or the
  opposite side is empty.
\<close>

lemma matchLimitLevel_rule:
  assumes "P s"
    and "\<And>s. P s \<Longrightarrow> lvOrders s \<noteq> [] \<Longrightarrow> RemainingQuantity (lvOrder s) > 0
            \<Longrightarrow> P (matchStep now u s)"
  shows "P (matchLimitLevel now u s)"
  using assms
proof (induction now u s rule: matchLimitLevel.induct)
  case (1 now u s)
  show ?case
  proof (cases "length (lvOrders s) > 0 \<and> RemainingQuantity (lvOrder s) > 0")
    case True
    then have "P (matchStep now u s)" using 1(2,3) by simp
    then show ?thesis using 1(1) [OF True _ 1(3)] True by (subst matchLimitLevel.simps) simp
  next
    case False
    then show ?thesis using 1(2) by (subst matchLimitLevel.simps) auto
  qed
qed

lemma matchMarketLevel_rule:
  assumes "P s"
    and "\<And>s. P s \<Longrightarrow> lvOrders s \<noteq> [] \<Longrightarrow> RemainingQuantity (lvOrder s) > 0
            \<Longrightarrow> P (matchStep now u s)"
  shows "P (matchMarketLevel now u s)"
  using assms
proof (induction now u s rule: matchMarketLevel.induct)
  case (1 now u s)
  show ?case
  proof (cases "length (lvOrders s) > 0 \<and> RemainingQuantity (lvOrder s) > 0")
    case True
    then have st: "P (matchStep now u s)" using 1(2,3) by simp
    show ?thesis
    proof (cases "IsFilled (lvOrder (matchStep now u s))")
      case True
      then show ?thesis using st \<open>length (lvOrders s) > 0 \<and> RemainingQuantity (lvOrder s) > 0\<close>
        by (subst matchMarketLevel.simps) (simp add: Let_def)
    next
      case False
      then show ?thesis
        using 1(1) [OF True refl False st 1(3)] True
        by (subst matchMarketLevel.simps) (simp add: Let_def)
    qed
  next
    case False
    then show ?thesis using 1(2) by (subst matchMarketLevel.simps) auto
  qed
qed

definition limitStops :: "OrderBook \<Rightarrow> Order \<Rightarrow> bool" where
  "limitStops ob ord \<longleftrightarrow>
     \<not> (RemainingQuantity ord > 0 \<and> Len (oppositeHeap ob ord) > 0)
     \<or> (case Peek (oppositeHeap ob ord) of
          None \<Rightarrow> True
        | Some bestLevel \<Rightarrow>
            Orders bestLevel = []
            \<or> (Side ord = OrderSideBuy \<and> LevelPrice bestLevel > Price ord)
            \<or> (Side ord = OrderSideSell \<and> LevelPrice bestLevel < Price ord))"

lemma matchLimitLoop_rule:
  assumes "P ob ord ts"
    and "\<And>ob ord ts bestLevel s.
           P ob ord ts \<Longrightarrow> RemainingQuantity ord > 0 \<Longrightarrow> Len (oppositeHeap ob ord) > 0
           \<Longrightarrow> Peek (oppositeHeap ob ord) = Some bestLevel \<Longrightarrow> Orders bestLevel \<noteq> []
           \<Longrightarrow> \<not> (Side ord = OrderSideBuy \<and> LevelPrice bestLevel > Price ord)
           \<Longrightarrow> \<not> (Side ord = OrderSideSell \<and> LevelPrice bestLevel < Price ord)
           \<Longrightarrow> s = matchLimitLevel now u (levelState ob ord ts bestLevel)
           \<Longrightarrow> P (afterLevel ob ord s) (lvOrder s) (lvTrades s)"
  shows "case matchLimitLoop now u ob ord ts of
           (ob', ord', ts') \<Rightarrow> P ob' ord' ts' \<and> limitStops ob' ord'"
  using assms
proof (induction now u ob ord ts rule: matchLimitLoop.induct)
  case (1 now u ob ord ts)
  show ?case
  proof (cases "RemainingQuantity ord > 0 \<and> Len (oppositeHeap ob ord) > 0")
    case False
    then show ?thesis using 1(2) by (subst matchLimitLoop.simps) (auto simp: limitStops_def)
  next
    case True
    then obtain bestLevel where pk: "Peek (oppositeHeap ob ord) = Some bestLevel"
      by (auto simp: Peek_def)
    show ?thesis
    proof (cases "Orders bestLevel = []
            \<or> (Side ord = OrderSideBuy \<and> LevelPrice bestLevel > Price ord)
            \<or> (Side ord = OrderSideSell \<and> LevelPrice bestLevel < Price ord)")
      case stop: True
      then show ?thesis using True pk 1(2)
        by (subst matchLimitLoop.simps) (auto simp: limitStops_def)
    next
      case go: False
      define s where "s = matchLimitLevel now u (levelState ob ord ts bestLevel)"
      have P': "P (afterLevel ob ord s) (lvOrder s) (lvTrades s)"
        using 1(3) [OF 1(2) _ _ pk _ _ _ s_def] True go by auto
      have "case matchLimitLoop now u (afterLevel ob ord s) (lvOrder s) (lvTrades s) of
              (ob', ord', ts') \<Rightarrow> P ob' ord' ts' \<and> limitStops ob' ord'"
        using 1(1) [OF True pk _ _ _ s_def P' 1(3)] go by auto
      then show ?thesis using True pk go
        by (subst matchLimitLoop.simps) (auto simp: Let_def s_def [symmetric])
    qed
  qed
qed

lemma matchMarketLoop_rule:
  assumes "P ob ord ts"
    and "\<And>ob ord ts bestLevel.
           P ob ord ts \<Longrightarrow> RemainingQuantity ord > 0 \<Longrightarrow> Len (oppositeHeap ob ord) > 0
           \<Longrightarrow> Peek (oppositeHeap ob ord) = Some bestLevel \<Longrightarrow> Orders bestLevel = []
           \<Longrightarrow> P (setOppositeHeap ob ord (snd (heap_Pop (oppositeHeap ob ord)))) ord ts"
    and "\<And>ob ord ts bestLevel s.
           P ob ord ts \<Longrightarrow> RemainingQuantity ord > 0 \<Longrightarrow> Len (oppositeHeap ob ord) > 0
           \<Longrightarrow> Peek (oppositeHeap ob ord) = Some bestLevel \<Longrightarrow> Orders bestLevel \<noteq> []
           \<Longrightarrow> s = matchMarketLevel now u (levelState ob ord ts bestLevel)
           \<Longrightarrow> P (afterLevel ob ord s) (lvOrder s) (lvTrades s)"
  shows "case matchMarketLoop now u ob ord ts of
           (ob', ord', ts') \<Rightarrow>
             P ob' ord' ts' \<and> \<not> (RemainingQuantity ord' > 0 \<and> Len (oppositeHeap ob' ord') > 0)"
  using assms
proof (induction now u ob ord ts rule: matchMarketLoop.induct)
  case (1 now u ob ord ts)
  show ?case
  proof (cases "RemainingQuantity ord > 0 \<and> Len (oppositeHeap ob ord) > 0")
    case False
    then show ?thesis using 1(3) by (subst matchMarketLoop.simps) auto
  next
    case True
    then obtain bestLevel where pk: "Peek (oppositeHeap ob ord) = Some bestLevel"
      by (auto simp: Peek_def)
    show ?thesis
    proof (cases "Orders bestLevel = []")
      case empty: True
      have P': "P (setOppositeHeap ob ord (snd (heap_Pop (oppositeHeap ob ord)))) ord ts"
        using 1(4) [OF 1(3) _ _ pk empty] True by auto
      have "case matchMarketLoop now u
                   (setOppositeHeap ob ord (snd (heap_Pop (oppositeHeap ob ord)))) ord ts of
              (ob', ord', ts') \<Rightarrow>
                P ob' ord' ts' \<and> \<not> (RemainingQuantity ord' > 0 \<and> Len (oppositeHeap ob' ord') > 0)"
        using 1(1) [OF True pk _ P' 1(4) 1(5)] empty by auto
      then show ?thesis using True pk empty
        by (subst matchMarketLoop.simps) auto
    next
      case go: False
      define s where "s = matchMarketLevel now u (levelState ob ord ts bestLevel)"
      have P': "P (afterLevel ob ord s) (lvOrder s) (lvTrades s)"
        using 1(5) [OF 1(3) _ _ pk go s_def] True by auto
      have "case matchMarketLoop now u (afterLevel ob ord s) (lvOrder s) (lvTrades s) of
              (ob', ord', ts') \<Rightarrow>
                P ob' ord' ts' \<and> \<not> (RemainingQuantity ord' > 0 \<and> Len (oppositeHeap ob' ord') > 0)"
        using 1(2) [OF True pk _ s_def P' 1(4) 1(5)] go by auto
      then show ?thesis using True pk go
        by (subst matchMarketLoop.simps) (auto simp: Let_def s_def [symmetric])
    qed
  qed
qed

section \<open>What matching leaves unchanged in the incoming order\<close>

definition sameIdentity :: "Order \<Rightarrow> Order \<Rightarrow> bool" where
  "sameIdentity a b \<longleftrightarrow>
     ID a = ID b \<and> Symbol a = Symbol b \<and> Type a = Type b \<and> Side a = Side b \<and>
     Quantity a = Quantity b \<and> Price a = Price b \<and> SubmittedAt a = SubmittedAt b \<and>
     CancelledAt a = CancelledAt b"

lemma matchStep_sameIdentity: "sameIdentity (lvOrder (matchStep now u s)) (lvOrder s)"
  by (simp add: matchStep_def Let_def sameIdentity_def)

lemma matchLimitLevel_sameIdentity:
  "sameIdentity (lvOrder (matchLimitLevel now u s)) (lvOrder s)"
  by (rule matchLimitLevel_rule [where P = "\<lambda>t. sameIdentity (lvOrder t) (lvOrder s)"])
     (use matchStep_sameIdentity in \<open>auto simp: sameIdentity_def\<close>)

lemma matchMarketLevel_sameIdentity:
  "sameIdentity (lvOrder (matchMarketLevel now u s)) (lvOrder s)"
  by (rule matchMarketLevel_rule [where P = "\<lambda>t. sameIdentity (lvOrder t) (lvOrder s)"])
     (use matchStep_sameIdentity in \<open>auto simp: sameIdentity_def\<close>)

lemma matchLimitLoop_sameIdentity:
  "sameIdentity (fst (snd (matchLimitLoop now u ob ord ts))) ord"
proof -
  have "case matchLimitLoop now u ob ord ts of
          (ob', ord', ts') \<Rightarrow> sameIdentity ord' ord \<and> limitStops ob' ord'"
  proof (rule matchLimitLoop_rule [where P = "\<lambda>ob' ord' ts'. sameIdentity ord' ord"], goal_cases)
    case 1
    show ?case by (simp add: sameIdentity_def)
  next
    case (2 ob1 ord1 ts1 bestLevel s)
    then show ?case
      using matchLimitLevel_sameIdentity [of now u "levelState ob1 ord1 ts1 bestLevel"]
      by (simp add: sameIdentity_def levelState_def)
  qed
  then show ?thesis by (auto split: prod.splits)
qed

lemma matchMarketLoop_sameIdentity:
  "sameIdentity (fst (snd (matchMarketLoop now u ob ord ts))) ord"
proof -
  have "case matchMarketLoop now u ob ord ts of
          (ob', ord', ts') \<Rightarrow> sameIdentity ord' ord
             \<and> \<not> (RemainingQuantity ord' > 0 \<and> Len (oppositeHeap ob' ord') > 0)"
  proof (rule matchMarketLoop_rule [where P = "\<lambda>ob' ord' ts'. sameIdentity ord' ord"], goal_cases)
    case 1
    show ?case by (simp add: sameIdentity_def)
  next
    case (2 ob1 ord1 ts1 bestLevel)
    then show ?case by simp
  next
    case (3 ob1 ord1 ts1 bestLevel s)
    then show ?case
      using matchMarketLevel_sameIdentity [of now u "levelState ob1 ord1 ts1 bestLevel"]
      by (simp add: sameIdentity_def levelState_def)
  qed
  then show ?thesis by (auto split: prod.splits)
qed

lemma matchLimitOrder_sameIdentity:
  "sameIdentity (fst (snd (matchLimitOrder now u ob ord))) ord"
  using matchLimitLoop_sameIdentity [of now u ob ord "[]"]
  by (auto simp: matchLimitOrder_def split: prod.splits)

lemma BookAddOrder_orders: "orders (BookAddOrder now ob ord) (ID ord) = Some ord"
  by (simp add: BookAddOrder_def Let_def)

section \<open>Order accounting\<close>



text \<open>
  Claim C8, as stated, fails: \<open>Fill\<close> has no guard and no error result. An order of 100
  filled with 100 has status Filled; a further \<open>Fill\<close> of 10 raises its filled quantity to
  110, so the order is not left as it was.
\<close>

theorem Fill_terminal_counterexample:
  "Status (Fill 1 100 150 (NewOrder 1 0 ''AAPL'' OrderTypeLimit OrderSideSell 100 150))
     = OrderStatusFilled
   \<and> FilledQuantity (Fill 2 10 151
        (Fill 1 100 150 (NewOrder 1 0 ''AAPL'' OrderTypeLimit OrderSideSell 100 150))) = 110
   \<and> Fill 2 10 151 (Fill 1 100 150 (NewOrder 1 0 ''AAPL'' OrderTypeLimit OrderSideSell 100 150))
     \<noteq> Fill 1 100 150 (NewOrder 1 0 ''AAPL'' OrderTypeLimit OrderSideSell 100 150)"
proof -
  let ?o = "Fill 1 100 150 (NewOrder 1 0 ''AAPL'' OrderTypeLimit OrderSideSell 100 150)"
  have 1: "Status ?o = OrderStatusFilled"
    by (simp add: Fill_def NewOrder_def Let_def IsFilled_def)
  have 2: "FilledQuantity (Fill 2 10 151 ?o) = 110"
    by (simp add: NewOrder_def)
  have "Fill 2 10 151 ?o \<noteq> ?o"
  proof
    assume "Fill 2 10 151 ?o = ?o"
    then have "FilledQuantity (Fill 2 10 151 ?o) = FilledQuantity ?o" by simp
    then show False by (simp add: NewOrder_def)
  qed
  with 1 2 show ?thesis by blast
qed

text \<open>
  Claim C8, amended. \<open>Fill\<close> checks no status and reports no error. Called with a positive
  quantity on a filled order (filled at least the quantity) it still adds the quantity to
  the filled quantity, keeps the status Filled and stamps the fill time again; called on an
  order whose status is Cancelled (with non-negative filled quantity) it adds the quantity
  as well and replaces the status by Filled or PartiallyFilled. The order type of the source
  has no cancel operation.
\<close>

theorem Fill_unguarded:
  assumes "0 < q"
  shows "(IsFilled ord \<longrightarrow>
            FilledQuantity (Fill now q p ord) = FilledQuantity ord + q
          \<and> Status (Fill now q p ord) = OrderStatusFilled
          \<and> FilledAt (Fill now q p ord) = Some now)
       \<and> (Status ord = OrderStatusCancelled \<and> 0 \<le> FilledQuantity ord \<longrightarrow>
            FilledQuantity (Fill now q p ord) = FilledQuantity ord + q
          \<and> Status (Fill now q p ord) \<in> {OrderStatusFilled, OrderStatusPartial})"
  using assms
  by (auto simp: Fill_def Let_def IsFilled_def)

theorem Fill_unguarded_witness:
  "IsFilled (Fill 1 100 150 (NewOrder 1 0 ''AAPL'' OrderTypeLimit OrderSideSell 100 150))
   \<and> FilledQuantity (Fill 2 10 151
        (Fill 1 100 150 (NewOrder 1 0 ''AAPL'' OrderTypeLimit OrderSideSell 100 150))) = 110
   \<and> Status (Fill 2 10 151
        (Fill 1 100 150 (NewOrder 1 0 ''AAPL'' OrderTypeLimit OrderSideSell 100 150)))
       = OrderStatusFilled
   \<and> FilledAt (Fill 2 10 151
        (Fill 1 100 150 (NewOrder 1 0 ''AAPL'' OrderTypeLimit OrderSideSell 100 150))) = Some 2
   \<and> Status (Fill 2 10 151
        ((NewOrder 1 0 ''AAPL'' OrderTypeLimit OrderSideSell 100 150)
           \<lparr> Status := OrderStatusCancelled \<rparr>)) = OrderStatusPartial"
proof -
  let ?o = "Fill 1 100 150 (NewOrder 1 0 ''AAPL'' OrderTypeLimit OrderSideSell 100 150)"
  let ?c = "(NewOrder 1 0 ''AAPL'' OrderTypeLimit OrderSideSell 100 150)
              \<lparr> Status := OrderStatusCancelled \<rparr>"
  have f: "IsFilled ?o"
    by (simp add: IsFilled_def NewOrder_def)
  have c: "Status ?c = OrderStatusCancelled \<and> 0 \<le> FilledQuantity ?c"
    by (simp add: NewOrder_def)
  have n: "\<not> IsFilled (Fill 2 10 151 ?c)"
    by (simp add: IsFilled_def NewOrder_def)
  have s: "Status (Fill 2 10 151 ?c) = OrderStatusFilled \<Longrightarrow> IsFilled (Fill 2 10 151 ?c)"
    by (simp add: Fill_def Let_def IsFilled_def NewOrder_def split: if_splits)
  have q: "(0::real) < 10" by simp
  show ?thesis
    using Fill_unguarded [OF q, of ?o 2 151] Fill_unguarded [OF q, of ?c 2 151] f c n s
    by (auto simp: NewOrder_def)
qed

section \<open>Validation of submissions\<close>

text \<open>
  Claim C6, as stated, fails for the engine: \<open>SubmitOrder\<close> validates nothing and has no
  error result. Submitting a limit order of quantity 0 to the empty engine creates the book
  of its symbol; submitting a sell limit order at price 0 against a resting bid at 150
  makes a trade at 150.
\<close>

theorem SubmitOrder_unvalidated_counterexample:
  "orderBooks NewMatchingEngine ''AAPL'' = None
   \<and> orderBooks (fst (SubmitOrder 0 100 NewMatchingEngine
         (NewOrder 1 0 ''AAPL'' OrderTypeLimit OrderSideBuy 0 150))) ''AAPL'' \<noteq> None
   \<and> map TradePrice (snd (snd (SubmitOrder 1 100
         (fst (SubmitOrder 0 100 NewMatchingEngine
            (NewOrder 1 0 ''AAPL'' OrderTypeLimit OrderSideBuy 100 150)))
         (NewOrder 2 1 ''AAPL'' OrderTypeLimit OrderSideSell 10 0)))) = [150]"
  by code_simp

text \<open>
  Claim C6, amended. The validation is in the HTTP handler \<open>submitOrder\<close>: a request with
  quantity at most 0, or of type limit or stop_loss with price at most 0, is answered with
  a bad-request error before an order is made; the engine is returned as it was (no book
  created or changed, no trade, same trade log).
\<close>

theorem submitOrder_rejects_invalid:
  assumes "reqQuantity req \<le> 0
     \<or> ((reqType req = ''limit'' \<or> reqType req = ''stop_loss'') \<and> reqPrice req \<le> 0)"
  shows "\<exists>msg. submitOrder now uid u engine req = (engine, Inl (StatusBadRequest msg))"
  using assms by (auto simp: submitOrder_def bindingOk_def)

theorem submitOrder_rejects_invalid_witness:
  "(\<exists>msg. submitOrder 0 1 100 NewMatchingEngine
       \<lparr> reqSymbol = ''AAPL'', reqType = ''limit'', reqSide = ''buy'',
         reqQuantity = 0, reqPrice = 150 \<rparr> = (NewMatchingEngine, Inl (StatusBadRequest msg)))
   \<and> (\<exists>msg. submitOrder 0 1 100 NewMatchingEngine
       \<lparr> reqSymbol = ''AAPL'', reqType = ''stop_loss'', reqSide = ''sell'',
         reqQuantity = 10, reqPrice = 0 \<rparr> = (NewMatchingEngine, Inl (StatusBadRequest msg)))"
  using submitOrder_rejects_invalid [of "\<lparr> reqSymbol = ''AAPL'', reqType = ''limit'',
           reqSide = ''buy'', reqQuantity = 0, reqPrice = 150 \<rparr>" 0 1 100 NewMatchingEngine]
    submitOrder_rejects_invalid [of "\<lparr> reqSymbol = ''AAPL'', reqType = ''stop_loss'',
           reqSide = ''sell'', reqQuantity = 10, reqPrice = 0 \<rparr>" 0 1 100 NewMatchingEngine]
  by simp

section \<open>The identity index\<close>

text \<open>
  Claim C7. The matching loops drop a filled resting order from the head of its level only;
  nothing takes it out of the identity index. After a sell limit order 100 at 150 (identifier
  1) and a buy limit order 100 at 150, both sides of the book are empty and identifier 1 is
  still in \<open>orders\<close>.
\<close>

theorem filled_order_stays_indexed:
  "orders (the (orderBooks
      (fst (SubmitOrder 1 100
         (fst (SubmitOrder 0 100 NewMatchingEngine
            (NewOrder 1 0 ''AAPL'' OrderTypeLimit OrderSideSell 100 150)))
         (NewOrder 2 1 ''AAPL'' OrderTypeLimit OrderSideBuy 100 150))) ''AAPL'')) 1 \<noteq> None
   \<and> Levels (Asks (the (orderBooks
      (fst (SubmitOrder 1 100
         (fst (SubmitOrder 0 100 NewMatchingEngine
            (NewOrder 1 0 ''AAPL'' OrderTypeLimit OrderSideSell 100 150)))
         (NewOrder 2 1 ''AAPL'' OrderTypeLimit OrderSideBuy 100 150))) ''AAPL''))) = []
   \<and> Levels (Bids (the (orderBooks
      (fst (SubmitOrder 1 100
         (fst (SubmitOrder 0 100 NewMatchingEngine
            (NewOrder 1 0 ''AAPL'' OrderTypeLimit OrderSideSell 100 150)))
         (NewOrder 2 1 ''AAPL'' OrderTypeLimit OrderSideBuy 100 150))) ''AAPL''))) = []"
  by code_simp

section \<open>The heap of price levels\<close>

text \<open>
  \<open>levelKey\<close> orders the levels of one side: the price on the ask side, the negated price
  on the bid side, so that on both sides \<open>Less h i j\<close> is \<open>levelKey h i < levelKey h j\<close>.
  \<open>heapOrdered\<close> is the heap condition of the library: no level is \<open>Less\<close> than its parent.
  The sift loops restore it; they permute the levels and keep the side flag.
\<close>

definition levelKey :: "PriceLevelHeap \<Rightarrow> nat \<Rightarrow> real" where
  "levelKey h i =
     (if IsBid h then - LevelPrice (Levels h ! i) else LevelPrice (Levels h ! i))"

definition heapUpto :: "PriceLevelHeap \<Rightarrow> nat \<Rightarrow> bool" where
  "heapUpto h n \<longleftrightarrow> (\<forall>m. 0 < m \<and> m < n \<longrightarrow> levelKey h ((m - 1) div 2) \<le> levelKey h m)"

definition heapOrdered :: "PriceLevelHeap \<Rightarrow> bool" where
  "heapOrdered h \<longleftrightarrow> heapUpto h (length (Levels h))"

lemma Less_levelKey: "Less h i j \<longleftrightarrow> levelKey h i < levelKey h j"
  by (auto simp: Less_def levelKey_def)

lemma Swap_IsBid [simp]: "IsBid (Swap h a b) = IsBid h"
  by (simp add: Swap_def)

lemma levelKey_Swap:
  assumes "a < length (Levels h)" "b < length (Levels h)" "x < length (Levels h)"
  shows "levelKey (Swap h a b) x
           = (if x = b then levelKey h a else if x = a then levelKey h b else levelKey h x)"
  using assms by (auto simp: levelKey_def Swap_def nth_list_update)

lemma heap_down_heapUpto:
  assumes "n \<le> length (Levels h)"
    and "\<forall>m. 0 < m \<and> m < n \<and> (m - 1) div 2 \<noteq> i
             \<longrightarrow> levelKey h ((m - 1) div 2) \<le> levelKey h m"
    and "\<forall>m. 0 < m \<and> m < n \<and> (m - 1) div 2 = i \<and> 0 < i
             \<longrightarrow> levelKey h ((i - 1) div 2) \<le> levelKey h m"
  shows "heapUpto (heap_down h i n) n"
  using assms
proof (induction h i n rule: heap_down.induct)
  case (1 h i n)
  let ?j1 = "2 * i + 1"
  show ?case
  proof (cases "?j1 \<ge> n")
    case True
    have "heapUpto h n"
      unfolding heapUpto_def
    proof (intro allI impI)
      fix m assume m: "0 < m \<and> m < n"
      then have "(m - 1) div 2 \<noteq> i" using True by auto
      then show "levelKey h ((m - 1) div 2) \<le> levelKey h m" using 1(3) m by blast
    qed
    then show ?thesis using True by (subst heap_down.simps) (simp add: Let_def)
  next
    case j1: False
    define j where "j = (if ?j1 + 1 < n \<and> Less h (?j1 + 1) ?j1 then ?j1 + 1 else ?j1)"
    have jn: "j < n" and ji: "(j - 1) div 2 = i" and igj: "i < j"
      using j1 by (auto simp: j_def)
    have jmin: "levelKey h j \<le> levelKey h m" if "(m - 1) div 2 = i" "0 < m" "m < n" for m
    proof -
      have "m = ?j1 \<or> m = ?j1 + 1" using that by auto
      then show ?thesis using that by (auto simp: j_def Less_levelKey)
    qed
    have step: "heap_down h i n = (if \<not> Less h j i then h else heap_down (Swap h i j) j n)"
      using j1 by (subst heap_down.simps) (simp add: Let_def j_def)
    show ?thesis
    proof (cases "Less h j i")
      case False
      then have le: "levelKey h i \<le> levelKey h j" by (simp add: Less_levelKey)
      have "heapUpto h n"
        unfolding heapUpto_def
      proof (intro allI impI)
        fix m assume m: "0 < m \<and> m < n"
        show "levelKey h ((m - 1) div 2) \<le> levelKey h m"
        proof (cases "(m - 1) div 2 = i")
          case True
          then show ?thesis using jmin [of m] m le by simp
        next
          case False
          then show ?thesis using 1(3) m by blast
        qed
      qed
      then show ?thesis using False by (simp add: step)
    next
      case True
      then have lt: "levelKey h j < levelKey h i" by (simp add: Less_levelKey)
      let ?h = "Swap h i j"
      have len: "i < length (Levels h)" "j < length (Levels h)"
        using jn igj 1(2) by auto
      have key: "levelKey ?h x
           = (if x = j then levelKey h i else if x = i then levelKey h j else levelKey h x)"
        if "x < n" for x
        using levelKey_Swap [OF len, of x] that 1(2) by simp
      have A: "\<forall>m. 0 < m \<and> m < n \<and> (m - 1) div 2 \<noteq> j
                 \<longrightarrow> levelKey ?h ((m - 1) div 2) \<le> levelKey ?h m"
      proof (intro allI impI)
        fix m assume m: "0 < m \<and> m < n \<and> (m - 1) div 2 \<noteq> j"
        then have pm: "(m - 1) div 2 < n" by auto
        consider "m = j" | "m = i" | "m \<noteq> i" "m \<noteq> j" "(m - 1) div 2 = i"
          | "m \<noteq> i" "m \<noteq> j" "(m - 1) div 2 \<noteq> i" by blast
        then show "levelKey ?h ((m - 1) div 2) \<le> levelKey ?h m"
        proof cases
          case 1
          then show ?thesis using key [of j] key [of i] jn igj ji lt by simp
        next
          case 2
          have pi: "(i - 1) div 2 \<noteq> i" "(i - 1) div 2 \<noteq> j" using m 2 igj by auto
          have "levelKey h ((i - 1) div 2) \<le> levelKey h j"
            using "1.prems"(3) jn ji igj m 2 by auto
          then show ?thesis using key [of i] key [of "(i - 1) div 2"] pm 2 m pi igj by simp
        next
          case 3
          then show ?thesis using key [of m] key [of i] m jmin [of m] igj jn by simp
        next
          case 4
          then show ?thesis
            using key [of m] key [of "(m - 1) div 2"] m pm "1.prems"(2) by simp
        qed
      qed
      have B: "\<forall>m. 0 < m \<and> m < n \<and> (m - 1) div 2 = j \<and> 0 < j
                 \<longrightarrow> levelKey ?h ((j - 1) div 2) \<le> levelKey ?h m"
      proof (intro allI impI)
        fix m assume m: "0 < m \<and> m < n \<and> (m - 1) div 2 = j \<and> 0 < j"
        then have "m \<noteq> i" "m \<noteq> j" "(m - 1) div 2 \<noteq> i" using igj by auto
        moreover have "levelKey h j \<le> levelKey h m"
          using "1.prems"(2) m igj by auto
        ultimately show "levelKey ?h ((j - 1) div 2) \<le> levelKey ?h m"
          using key [of m] key [of i] m ji igj jn by simp
      qed
      have "heapUpto (heap_down ?h j n) n"
        using "1.IH" [OF refl _ j_def _ _ A B] j1 True "1.prems"(1) by simp
      then show ?thesis using True by (simp add: step)
    qed
  qed
qed

lemma heap_up_heapUpto:
  assumes "j < n" and "n \<le> length (Levels h)"
    and "\<forall>m. 0 < m \<and> m < n \<and> m \<noteq> j \<longrightarrow> levelKey h ((m - 1) div 2) \<le> levelKey h m"
    and "\<forall>m. 0 < m \<and> m < n \<and> (m - 1) div 2 = j \<and> 0 < j
             \<longrightarrow> levelKey h ((j - 1) div 2) \<le> levelKey h m"
  shows "heapUpto (heap_up h j) n"
  using assms
proof (induction h j rule: heap_up.induct)
  case (1 h j)
  define i where "i = (j - 1) div 2"
  have step: "heap_up h j = (if i = j \<or> \<not> Less h j i then h else heap_up (Swap h i j) i)"
    by (subst heap_up.simps) (simp add: Let_def i_def)
  show ?case
  proof (cases "i = j \<or> \<not> Less h j i")
    case True
    have "heapUpto h n"
      unfolding heapUpto_def
    proof (intro allI impI)
      fix m assume m: "0 < m \<and> m < n"
      show "levelKey h ((m - 1) div 2) \<le> levelKey h m"
      proof (cases "m = j")
        case False
        then show ?thesis using "1.prems"(3) m by blast
      next
        case mj: True
        then have "i \<noteq> j" using m by (auto simp: i_def)
        then have "\<not> Less h j i" using True by blast
        then show ?thesis using mj by (simp add: Less_levelKey i_def)
      qed
    qed
    then show ?thesis using True by (simp add: step)
  next
    case False
    then have ij: "i < j" and j0: "0 < j" and lt: "levelKey h j < levelKey h i"
      by (auto simp: i_def Less_levelKey)
    let ?h = "Swap h i j"
    have len: "i < length (Levels h)" "j < length (Levels h)"
      using ij "1.prems"(1,2) by auto
    have key: "levelKey ?h x
         = (if x = j then levelKey h i else if x = i then levelKey h j else levelKey h x)"
      if "x < n" for x
      using levelKey_Swap [OF len, of x] that "1.prems"(2) by simp
    have jn: "j < n" and "i < n" using "1.prems"(1) ij by auto
    have A: "\<forall>m. 0 < m \<and> m < n \<and> m \<noteq> i
               \<longrightarrow> levelKey ?h ((m - 1) div 2) \<le> levelKey ?h m"
    proof (intro allI impI)
      fix m assume m: "0 < m \<and> m < n \<and> m \<noteq> i"
      then have pm: "(m - 1) div 2 < n" by auto
      consider "m = j" | "m \<noteq> j" "(m - 1) div 2 = i" | "m \<noteq> j" "(m - 1) div 2 = j"
        | "m \<noteq> j" "(m - 1) div 2 \<noteq> i" "(m - 1) div 2 \<noteq> j" by blast
      then show "levelKey ?h ((m - 1) div 2) \<le> levelKey ?h m"
      proof cases
        case 1
        then show ?thesis using key [of j] key [of i] jn \<open>i < n\<close> ij lt by (simp add: i_def)
      next
        case 2
        have "levelKey h i \<le> levelKey h m" using "1.prems"(3) m 2 by auto
        then show ?thesis using key [of m] key [of i] m 2 \<open>i < n\<close> ij lt by simp
      next
        case 3
        have "levelKey h i \<le> levelKey h m" using "1.prems"(4) m 3 j0 by (auto simp: i_def)
        then show ?thesis using key [of m] key [of j] m 3 jn ij by simp
      next
        case 4
        then show ?thesis
          using key [of m] key [of "(m - 1) div 2"] m pm "1.prems"(3) by simp
      qed
    qed
    have B: "\<forall>m. 0 < m \<and> m < n \<and> (m - 1) div 2 = i \<and> 0 < i
               \<longrightarrow> levelKey ?h ((i - 1) div 2) \<le> levelKey ?h m"
    proof (intro allI impI)
      fix m assume m: "0 < m \<and> m < n \<and> (m - 1) div 2 = i \<and> 0 < i"
      have i0: "0 < i" using m by simp
      have pi: "(i - 1) div 2 \<noteq> i" "(i - 1) div 2 \<noteq> j" "(i - 1) div 2 < n"
        using i0 ij \<open>i < n\<close> by arith+
      have p: "levelKey h ((i - 1) div 2) \<le> levelKey h i"
        using "1.prems"(3) m \<open>i < n\<close> ij by auto
      have mi: "m \<noteq> i" using m by auto
      show "levelKey ?h ((i - 1) div 2) \<le> levelKey ?h m"
      proof (cases "m = j")
        case True
        then show ?thesis using key [of j] key [of "(i - 1) div 2"] pi jn p by simp
      next
        case False
        have "levelKey h i \<le> levelKey h m" using "1.prems"(3) m False by auto
        then show ?thesis using key [of m] key [of "(i - 1) div 2"] pi m mi False p by simp
      qed
    qed
    have "heapUpto (heap_up ?h i) n"
      using "1.IH" [OF i_def _ \<open>i < n\<close> _ A B] False "1.prems"(2) by simp
    then show ?thesis using False by (simp add: step)
  qed
qed

lemma heapUpto_top:
  assumes "heapUpto h n" and "m < n"
  shows "levelKey h 0 \<le> levelKey h m"
  using assms(2)
proof (induction m rule: less_induct)
  case (less m)
  show ?case
  proof (cases "m = 0")
    case True
    then show ?thesis by simp
  next
    case False
    then have "(m - 1) div 2 < m" by auto
    moreover have "levelKey h ((m - 1) div 2) \<le> levelKey h m"
      using assms(1) less.prems False by (auto simp: heapUpto_def)
    ultimately show ?thesis using less.IH [of "(m - 1) div 2"] less.prems by force
  qed
qed

lemma heap_down_IsBid [simp]: "IsBid (heap_down h i n) = IsBid h"
  by (induction h i n rule: heap_down.induct) (subst heap_down.simps, simp add: Let_def)

lemma heap_up_IsBid [simp]: "IsBid (heap_up h j) = IsBid h"
  by (induction h j rule: heap_up.induct) (subst heap_up.simps, simp add: Let_def)

lemma heap_up_length [simp]: "length (Levels (heap_up h j)) = length (Levels h)"
  by (induction h j rule: heap_up.induct) (subst heap_up.simps, simp add: Let_def)

lemma Swap_mset:
  "a < length (Levels h) \<Longrightarrow> b < length (Levels h)
     \<Longrightarrow> mset (Levels (Swap h a b)) = mset (Levels h)"
  by (simp add: Swap_def mset_swap)

lemma heap_down_mset:
  "n \<le> length (Levels h) \<Longrightarrow> mset (Levels (heap_down h i n)) = mset (Levels h)"
proof (induction h i n rule: heap_down.induct)
  case (1 h i n)
  show ?case
    using 1 by (subst heap_down.simps) (auto simp: Let_def Swap_mset)
qed

lemma heap_up_mset:
  "j < length (Levels h) \<Longrightarrow> mset (Levels (heap_up h j)) = mset (Levels h)"
proof (induction h j rule: heap_up.induct)
  case (1 h j)
  have "(j - 1) div 2 < length (Levels h)" using 1(2) by auto
  then show ?case
    using 1 by (subst heap_up.simps) (auto simp: Let_def Swap_mset)
qed

lemma heap_down_nth:
  "n \<le> m \<Longrightarrow> Levels (heap_down h i n) ! m = Levels h ! m"
proof (induction h i n rule: heap_down.induct)
  case (1 h i n)
  show ?case
    using 1 by (subst heap_down.simps) (auto simp: Let_def Swap_def)
qed

lemma heap_Push_IsBid [simp]: "IsBid (heap_Push h x) = IsBid h"
  by (simp add: heap_Push_def Push_def Let_def)

lemma heap_Push_mset: "mset (Levels (heap_Push h x)) = mset (Levels h) + {#x#}"
  by (simp add: heap_Push_def Push_def Let_def Len_def heap_up_mset)

lemma heap_Push_heapOrdered:
  assumes "heapOrdered h"
  shows "heapOrdered (heap_Push h x)"
proof -
  let ?n = "length (Levels h)"
  let ?h = "Push h x"
  have key: "levelKey ?h m = levelKey h m" if "m < ?n" for m
    using that by (simp add: levelKey_def Push_def nth_append)
  have A: "\<forall>m. 0 < m \<and> m < Suc ?n \<and> m \<noteq> ?n
             \<longrightarrow> levelKey ?h ((m - 1) div 2) \<le> levelKey ?h m"
  proof (intro allI impI)
    fix m assume m: "0 < m \<and> m < Suc ?n \<and> m \<noteq> ?n"
    then have "m < ?n" "(m - 1) div 2 < ?n" by auto
    then show "levelKey ?h ((m - 1) div 2) \<le> levelKey ?h m"
      using key assms m by (simp add: heapOrdered_def heapUpto_def)
  qed
  have B: "\<forall>m. 0 < m \<and> m < Suc ?n \<and> (m - 1) div 2 = ?n \<and> 0 < ?n
             \<longrightarrow> levelKey ?h ((?n - 1) div 2) \<le> levelKey ?h m"
    by auto
  have "heapUpto (heap_up ?h ?n) (Suc ?n)"
    by (rule heap_up_heapUpto [OF _ _ A B]) (simp_all add: Push_def)
  then show ?thesis
    by (simp add: heapOrdered_def heap_Push_def Let_def Len_def Push_def)
qed

lemma heap_Pop_IsBid [simp]: "IsBid (snd (heap_Pop h)) = IsBid h"
  by (simp add: heap_Pop_def Pop_def Let_def)

lemma heap_Pop_mset:
  assumes "Levels h \<noteq> []"
  shows "mset (Levels (snd (heap_Pop h))) = mset (tl (Levels h))"
proof -
  let ?n = "length (Levels h) - 1"
  let ?d = "heap_down (Swap h 0 ?n) 0 ?n"
  have n: "?n < length (Levels h)" using assms by (simp add: Suc_leI)
  have len: "length (Levels ?d) = length (Levels h)" by simp
  have ne: "Levels ?d \<noteq> []" using assms len by (metis length_0_conv)
  have z: "0 < length (Levels h)" using assms by simp
  have m: "mset (Levels ?d) = mset (Levels h)"
    using Swap_mset [OF z n] by (simp add: heap_down_mset)
  have "last (Levels ?d) = Levels ?d ! ?n"
    using ne len by (simp add: last_conv_nth)
  also have "\<dots> = Levels (Swap h 0 ?n) ! ?n"
    by (simp add: heap_down_nth)
  also have "\<dots> = Levels h ! 0"
    using n by (simp add: Swap_def)
  also have "\<dots> = hd (Levels h)"
    using assms by (simp add: hd_conv_nth)
  finally have l: "last (Levels ?d) = hd (Levels h)" .
  have "mset (butlast (Levels ?d)) = mset (Levels ?d) - {#last (Levels ?d)#}"
    using ne by (metis append_butlast_last_id mset_append add_mset_add_single
        add_diff_cancel_right' mset.simps(1) mset.simps(2) union_mset_add_mset_right)
  also have "\<dots> = mset (Levels h) - {#hd (Levels h)#}"
    by (simp only: m l)
  also have "\<dots> = mset (tl (Levels h))"
    using assms by (cases "Levels h") auto
  finally show ?thesis
    by (simp add: heap_Pop_def Pop_def Let_def Len_def)
qed

lemma heap_Pop_heapOrdered:
  assumes "heapOrdered h"
  shows "heapOrdered (snd (heap_Pop h))"
proof (cases "Levels h = []")
  case True
  then show ?thesis
    by (simp add: heapOrdered_def heapUpto_def heap_Pop_def Pop_def Let_def Len_def)
next
  case False
  let ?n = "length (Levels h) - 1"
  let ?s = "Swap h 0 ?n"
  let ?d = "heap_down ?s 0 ?n"
  have n: "?n < length (Levels h)" using False by (simp add: Suc_leI)
  have key: "levelKey ?s m = levelKey h m" if "0 < m" "m < ?n" for m
    using that by (simp add: levelKey_def Swap_def)
  have A: "\<forall>m. 0 < m \<and> m < ?n \<and> (m - 1) div 2 \<noteq> 0
             \<longrightarrow> levelKey ?s ((m - 1) div 2) \<le> levelKey ?s m"
  proof (intro allI impI)
    fix m assume m: "0 < m \<and> m < ?n \<and> (m - 1) div 2 \<noteq> 0"
    then have p: "0 < (m - 1) div 2" "(m - 1) div 2 < ?n" by auto
    have "levelKey h ((m - 1) div 2) \<le> levelKey h m"
      using assms m by (auto simp: heapOrdered_def heapUpto_def)
    then show "levelKey ?s ((m - 1) div 2) \<le> levelKey ?s m"
      using key [of m] key [of "(m - 1) div 2"] m p by simp
  qed
  have "heapUpto ?d ?n"
    by (rule heap_down_heapUpto [OF _ A]) simp_all
  moreover have "levelKey (snd (Pop ?d)) m = levelKey ?d m" if "m < ?n" for m
    using that by (simp add: levelKey_def Pop_def nth_butlast)
  ultimately show ?thesis
    by (auto simp: heapOrdered_def heapUpto_def heap_Pop_def Let_def Len_def Pop_def
        levelKey_def nth_butlast)
qed

section \<open>The invariant of a book\<close>

text \<open>
  \<open>levelOk\<close>: a level is not empty and each of its orders carries the level's price and has
  quantity left. \<open>sideOk\<close>: the side is heap-ordered and all its levels are \<open>levelOk\<close>.
  \<open>bookOk\<close>: the bid heap is the bid side, the ask heap the ask side, both are \<open>sideOk\<close>,
  and every bid price is below every ask price.
\<close>

definition levelOk :: "PriceLevel \<Rightarrow> bool" where
  "levelOk l \<longleftrightarrow>
     Orders l \<noteq> [] \<and> (\<forall>r \<in> set (Orders l). Price r = LevelPrice l \<and> 0 < RemainingQuantity r)"

definition sideOk :: "PriceLevelHeap \<Rightarrow> bool" where
  "sideOk h \<longleftrightarrow> heapOrdered h \<and> (\<forall>l \<in> set (Levels h). levelOk l)"

definition bookOk :: "OrderBook \<Rightarrow> bool" where
  "bookOk ob \<longleftrightarrow>
     IsBid (Bids ob) \<and> \<not> IsBid (Asks ob) \<and> sideOk (Bids ob) \<and> sideOk (Asks ob) \<and>
     (\<forall>b \<in> set (Levels (Bids ob)). \<forall>a \<in> set (Levels (Asks ob)). LevelPrice b < LevelPrice a)"

definition engineOk :: "MatchingEngine \<Rightarrow> bool" where
  "engineOk me \<longleftrightarrow> (\<forall>sym ob. orderBooks me sym = Some ob \<longrightarrow> bookOk ob)"

lemma heapOrdered_cong:
  assumes "map LevelPrice (Levels h') = map LevelPrice (Levels h)" and "IsBid h' = IsBid h"
  shows "heapOrdered h' = heapOrdered h"
proof -
  have len: "length (Levels h') = length (Levels h)"
    using assms(1) map_eq_imp_length_eq by blast
  have key: "levelKey h' m = levelKey h m" if "m < length (Levels h)" for m
  proof -
    have "map LevelPrice (Levels h') ! m = map LevelPrice (Levels h) ! m"
      by (simp only: assms(1))
    then have "LevelPrice (Levels h' ! m) = LevelPrice (Levels h ! m)"
      using that len by simp
    then show ?thesis by (simp add: levelKey_def assms(2))
  qed
  have both: "levelKey h' ((m - 1) div 2) = levelKey h ((m - 1) div 2)
              \<and> levelKey h' m = levelKey h m" if "m < length (Levels h)" for m
  proof -
    have "(m - 1) div 2 < length (Levels h)" using that by arith
    then show ?thesis using key that by simp
  qed
  show ?thesis
    unfolding heapOrdered_def heapUpto_def len using both by auto
qed

lemma matchStep_resting:
  assumes "\<forall>r \<in> set (lvOrders s). Price r = p \<and> 0 < RemainingQuantity r"
    and "lvOrders s \<noteq> []"
  shows "\<forall>r \<in> set (lvOrders (matchStep now u s)). Price r = p \<and> 0 < RemainingQuantity r"
  using assms
  by (cases "lvOrders s") (auto simp: matchStep_def Let_def IsFilled_Remaining)

lemma matchLimitLevel_resting:
  assumes "\<forall>r \<in> set (lvOrders s). Price r = p \<and> 0 < RemainingQuantity r"
  shows "\<forall>r \<in> set (lvOrders (matchLimitLevel now u s)). Price r = p \<and> 0 < RemainingQuantity r"
proof (rule matchLimitLevel_rule
        [where P = "\<lambda>t. \<forall>r \<in> set (lvOrders t). Price r = p \<and> 0 < RemainingQuantity r"],
      goal_cases)
  case 1
  show ?case by (rule assms)
next
  case (2 t)
  show ?case by (rule matchStep_resting [OF 2(1) 2(2)])
qed

lemma matchMarketLevel_resting:
  assumes "\<forall>r \<in> set (lvOrders s). Price r = p \<and> 0 < RemainingQuantity r"
  shows "\<forall>r \<in> set (lvOrders (matchMarketLevel now u s)). Price r = p \<and> 0 < RemainingQuantity r"
proof (rule matchMarketLevel_rule
        [where P = "\<lambda>t. \<forall>r \<in> set (lvOrders t). Price r = p \<and> 0 < RemainingQuantity r"],
      goal_cases)
  case 1
  show ?case by (rule assms)
next
  case (2 t)
  show ?case by (rule matchStep_resting [OF 2(1) 2(2)])
qed

text \<open>What \<open>afterLevel\<close> does to the opposite heap.\<close>

definition closeLevel :: "PriceLevelHeap \<Rightarrow> Order list \<Rightarrow> PriceLevelHeap" where
  "closeLevel h rs =
     (let h1 = h \<lparr> Levels := (Levels h) [0 := (Levels h ! 0) \<lparr> Orders := rs \<rparr>] \<rparr>
      in if length rs = 0 then snd (heap_Pop h1) else h1)"

lemma afterLevel_closeLevel:
  "afterLevel ob ord s =
     (setOppositeHeap ob ord (closeLevel (oppositeHeap ob ord) (lvOrders s)))
       \<lparr> LastPrice := lvLastPrice s, LastTrade := lvLastTrade s \<rparr>"
  by (simp add: afterLevel_def closeLevel_def Let_def)

lemma closeLevel_IsBid [simp]: "IsBid (closeLevel h rs) = IsBid h"
  by (simp add: closeLevel_def Let_def)

lemma closeLevel_sideOk:
  assumes "sideOk h" and "Levels h \<noteq> []"
    and "\<forall>r \<in> set rs. Price r = LevelPrice (Levels h ! 0) \<and> 0 < RemainingQuantity r"
  shows "sideOk (closeLevel h rs)"
    and "set (Levels (closeLevel h rs)) \<subseteq>
           insert ((Levels h ! 0) \<lparr> Orders := rs \<rparr>) (set (tl (Levels h)))"
    and "LevelPrice ` set (Levels (closeLevel h rs)) \<subseteq> LevelPrice ` set (Levels h)"
proof -
  obtain l ls where L: "Levels h = l # ls" using assms(2) by (cases "Levels h") auto
  let ?h1 = "h \<lparr> Levels := (Levels h) [0 := (Levels h ! 0) \<lparr> Orders := rs \<rparr>] \<rparr>"
  have L1: "Levels ?h1 = l \<lparr> Orders := rs \<rparr> # ls" by (simp add: L)
  have ord1: "heapOrdered ?h1"
    using assms(1) heapOrdered_cong [of ?h1 h] by (simp add: L sideOk_def)
  have ok_ls: "\<forall>x \<in> set ls. levelOk x" using assms(1) by (simp add: sideOk_def L)
  show "sideOk (closeLevel h rs)"
  proof (cases "rs = []")
    case True
    have "mset (Levels (snd (heap_Pop ?h1))) = mset ls"
      using heap_Pop_mset [of ?h1] L1 by simp
    then have "set (Levels (snd (heap_Pop ?h1))) = set ls"
      by (metis set_mset_mset)
    then show ?thesis
      using True ok_ls heap_Pop_heapOrdered [OF ord1]
      by (simp add: closeLevel_def Let_def sideOk_def)
  next
    case False
    then have "levelOk (l \<lparr> Orders := rs \<rparr>)"
      using assms(3) by (simp add: levelOk_def L)
    then show ?thesis
      using False ok_ls ord1 L1 by (simp add: closeLevel_def Let_def sideOk_def)
  qed
  show sub: "set (Levels (closeLevel h rs)) \<subseteq>
           insert ((Levels h ! 0) \<lparr> Orders := rs \<rparr>) (set (tl (Levels h)))"
  proof (cases "rs = []")
    case True
    have "mset (Levels (snd (heap_Pop ?h1))) = mset ls"
      using heap_Pop_mset [of ?h1] L1 by simp
    then have "set (Levels (snd (heap_Pop ?h1))) = set ls"
      by (metis set_mset_mset)
    then show ?thesis using True by (auto simp: closeLevel_def Let_def L)
  next
    case False
    then show ?thesis using L1 by (auto simp: closeLevel_def Let_def L)
  qed
  show "LevelPrice ` set (Levels (closeLevel h rs)) \<subseteq> LevelPrice ` set (Levels h)"
    using sub by (auto simp: L)
qed

lemma appendAtPrice_prices:
  "appendAtPrice ord ls = Some ls' \<Longrightarrow> map LevelPrice ls' = map LevelPrice ls"
  by (induction ls arbitrary: ls') (auto split: if_splits)

lemma appendAtPrice_levels:
  assumes "appendAtPrice ord ls = Some ls'" and "l' \<in> set ls'"
  shows "l' \<in> set ls
           \<or> (\<exists>l \<in> set ls. LevelPrice l = Price ord \<and> l' = l \<lparr> Orders := Orders l @ [ord] \<rparr>)"
  using assms
proof (induction ls arbitrary: ls')
  case Nil
  then show ?case by simp
next
  case (Cons a ls)
  show ?case
  proof (cases "LevelPrice a = Price ord")
    case True
    then show ?thesis using Cons.prems by auto
  next
    case False
    then obtain z where z: "appendAtPrice ord ls = Some z" "ls' = a # z"
      using Cons.prems(1) by auto
    show ?thesis
    proof (cases "l' = a")
      case True
      then show ?thesis by simp
    next
      case False
      then have "l' \<in> set z" using Cons.prems(2) z by simp
      then show ?thesis using Cons.IH [OF z(1)] by auto
    qed
  qed
qed

lemma heap_Push_set: "set (Levels (heap_Push h x)) = insert x (set (Levels h))"
proof -
  have "set_mset (mset (Levels (heap_Push h x))) = set_mset (mset (Levels h) + {#x#})"
    by (simp only: heap_Push_mset)
  then show ?thesis by simp
qed

lemma AddOrder_IsBid [simp]: "IsBid (AddOrder h ord) = IsBid h"
  by (simp add: AddOrder_def split: option.splits)

lemma AddOrder_sideOk:
  assumes "sideOk h" and "0 < RemainingQuantity ord"
  shows "sideOk (AddOrder h ord)"
    and "LevelPrice ` set (Levels (AddOrder h ord))
           \<subseteq> insert (Price ord) (LevelPrice ` set (Levels h))"
proof -
  show "sideOk (AddOrder h ord)"
  proof (cases "appendAtPrice ord (Levels h)")
    case None
    let ?l = "\<lparr> LevelPrice = Price ord, Orders = [ord] \<rparr>"
    have "levelOk ?l" using assms(2) by (simp add: levelOk_def)
    then show ?thesis
      using None assms(1) heap_Push_heapOrdered [of h ?l]
      by (simp add: AddOrder_def sideOk_def heap_Push_set)
  next
    case (Some ls')
    have "heapOrdered (h \<lparr> Levels := ls' \<rparr>)"
      using appendAtPrice_prices [OF Some] assms(1)
        heapOrdered_cong [of "h \<lparr> Levels := ls' \<rparr>" h]
      by (simp add: sideOk_def)
    moreover have "levelOk l'" if "l' \<in> set ls'" for l'
    proof -
      note mem = that
      consider "l' \<in> set (Levels h)"
        | l where "l \<in> set (Levels h)" "LevelPrice l = Price ord"
            "l' = l \<lparr> Orders := Orders l @ [ord] \<rparr>"
        using appendAtPrice_levels [OF Some mem] by blast
      then show ?thesis
      proof cases
        case 1
        then show ?thesis using assms(1) by (simp add: sideOk_def)
      next
        case 2
        then have "levelOk l" using assms(1) by (simp add: sideOk_def)
        then show ?thesis using 2 assms(2) by (auto simp: levelOk_def)
      qed
    qed
    ultimately show ?thesis using Some by (simp add: AddOrder_def sideOk_def)
  qed
  show "LevelPrice ` set (Levels (AddOrder h ord))
           \<subseteq> insert (Price ord) (LevelPrice ` set (Levels h))"
  proof (cases "appendAtPrice ord (Levels h)")
    case None
    let ?l = "\<lparr> LevelPrice = Price ord, Orders = [ord] \<rparr>"
    show ?thesis using None by (simp add: AddOrder_def heap_Push_set)
  next
    case (Some ls')
    have "set (map LevelPrice ls') = set (map LevelPrice (Levels h))"
      using appendAtPrice_prices [OF Some] by simp
    then show ?thesis using Some by (auto simp: AddOrder_def)
  qed
qed

lemma sideOk_top:
  assumes "sideOk h" and "l \<in> set (Levels h)"
  shows "if IsBid h then LevelPrice l \<le> LevelPrice (Levels h ! 0)
         else LevelPrice (Levels h ! 0) \<le> LevelPrice l"
proof -
  obtain m where m: "m < length (Levels h)" "Levels h ! m = l"
    using assms(2) by (auto simp: in_set_conv_nth)
  have "levelKey h 0 \<le> levelKey h m"
    using heapUpto_top [of h "length (Levels h)" m] assms(1) m(1)
    by (simp add: sideOk_def heapOrdered_def)
  then show ?thesis using m(2) by (auto simp: levelKey_def)
qed

lemma afterLevel_bookOk:
  assumes "bookOk ob" and "Peek (oppositeHeap ob ord) = Some bestLevel"
    and "\<forall>r \<in> set (lvOrders s). Price r = LevelPrice bestLevel \<and> 0 < RemainingQuantity r"
  shows "bookOk (afterLevel ob ord s)"
proof -
  let ?h = "oppositeHeap ob ord"
  have ne: "Levels ?h \<noteq> []" and best: "bestLevel = Levels ?h ! 0"
    using assms(2) by (auto simp: Peek_def Len_def split: if_splits)
  have ok: "sideOk ?h" using assms(1) by (simp add: bookOk_def oppositeHeap_def)
  have rs: "\<forall>r \<in> set (lvOrders s). Price r = LevelPrice (Levels ?h ! 0) \<and> 0 < RemainingQuantity r"
    using assms(3) best by simp
  note c = closeLevel_sideOk(1,3) [OF ok ne rs]
  show ?thesis
  proof (cases "Side ord = OrderSideBuy")
    case True
    then show ?thesis
      using assms(1) c
      by (auto simp: afterLevel_closeLevel bookOk_def oppositeHeap_def setOppositeHeap_def)
  next
    case False
    then show ?thesis
      using assms(1) c
      by (auto simp: afterLevel_closeLevel bookOk_def oppositeHeap_def setOppositeHeap_def)
  qed
qed

lemma Peek_levelOk:
  assumes "sideOk h" and "Peek h = Some bestLevel"
  shows "levelOk bestLevel"
proof -
  have "bestLevel \<in> set (Levels h)"
    using assms(2) by (auto simp: Peek_def Len_def split: if_splits)
  then show ?thesis using assms(1) by (simp add: sideOk_def)
qed

lemma oppositeHeap_sideOk: "bookOk ob \<Longrightarrow> sideOk (oppositeHeap ob ord)"
  by (simp add: bookOk_def oppositeHeap_def)

lemma matchLimitLoop_bookOk:
  assumes "bookOk ob"
  shows "case matchLimitLoop now u ob ord ts of
           (ob', ord', ts') \<Rightarrow> (bookOk ob' \<and> sameIdentity ord' ord) \<and> limitStops ob' ord'"
proof (rule matchLimitLoop_rule [where P = "\<lambda>ob' ord' ts'. bookOk ob' \<and> sameIdentity ord' ord"],
    goal_cases)
  case 1
  show ?case using assms by (simp add: sameIdentity_def)
next
  case (2 ob1 ord1 ts1 bestLevel s)
  have lv: "levelOk bestLevel"
    using Peek_levelOk [OF oppositeHeap_sideOk 2(4)] 2(1) by simp
  have "\<forall>r \<in> set (lvOrders (levelState ob1 ord1 ts1 bestLevel)).
          Price r = LevelPrice bestLevel \<and> 0 < RemainingQuantity r"
    using lv by (simp add: levelState_def levelOk_def)
  then have rs: "\<forall>r \<in> set (lvOrders s). Price r = LevelPrice bestLevel \<and> 0 < RemainingQuantity r"
    unfolding 2(8) by (rule matchLimitLevel_resting)
  have "bookOk (afterLevel ob1 ord1 s)"
    using afterLevel_bookOk [OF _ 2(4) rs] 2(1) by simp
  moreover have "sameIdentity (lvOrder s) ord"
    using matchLimitLevel_sameIdentity [of now u "levelState ob1 ord1 ts1 bestLevel"] 2(1)
    by (simp add: 2(8) sameIdentity_def levelState_def)
  ultimately show ?case by simp
qed

lemma matchMarketLoop_bookOk:
  assumes "bookOk ob"
  shows "case matchMarketLoop now u ob ord ts of
           (ob', ord', ts') \<Rightarrow> (bookOk ob' \<and> sameIdentity ord' ord)
              \<and> \<not> (RemainingQuantity ord' > 0 \<and> Len (oppositeHeap ob' ord') > 0)"
proof (rule matchMarketLoop_rule [where P = "\<lambda>ob' ord' ts'. bookOk ob' \<and> sameIdentity ord' ord"],
    goal_cases)
  case 1
  show ?case using assms by (simp add: sameIdentity_def)
next
  case (2 ob1 ord1 ts1 bestLevel)
  have "levelOk bestLevel"
    using Peek_levelOk [OF oppositeHeap_sideOk 2(4)] 2(1) by simp
  then show ?case using 2(5) by (simp add: levelOk_def)
next
  case (3 ob1 ord1 ts1 bestLevel s)
  have lv: "levelOk bestLevel"
    using Peek_levelOk [OF oppositeHeap_sideOk 3(4)] 3(1) by simp
  have "\<forall>r \<in> set (lvOrders (levelState ob1 ord1 ts1 bestLevel)).
          Price r = LevelPrice bestLevel \<and> 0 < RemainingQuantity r"
    using lv by (simp add: levelState_def levelOk_def)
  then have rs: "\<forall>r \<in> set (lvOrders s). Price r = LevelPrice bestLevel \<and> 0 < RemainingQuantity r"
    unfolding 3(6) by (rule matchMarketLevel_resting)
  have "bookOk (afterLevel ob1 ord1 s)"
    using afterLevel_bookOk [OF _ 3(4) rs] 3(1) by simp
  moreover have "sameIdentity (lvOrder s) ord"
    using matchMarketLevel_sameIdentity [of now u "levelState ob1 ord1 ts1 bestLevel"] 3(1)
    by (simp add: 3(6) sameIdentity_def levelState_def)
  ultimately show ?case by simp
qed

lemma matchMarketOrder_bookOk:
  "bookOk ob \<Longrightarrow> bookOk (fst (matchMarketOrder now u ob ord))"
  using matchMarketLoop_bookOk [where ob = ob and now = now and u = u and ord = ord and ts = "[]"]
  by (auto simp: matchMarketOrder_def split: prod.splits)

text \<open>
  When the limit loop stops with quantity left, every level of the opposite side is
  strictly beyond the order's price.
\<close>

lemma limitStops_beyond:
  assumes "bookOk ob" and "limitStops ob ord" and "0 < RemainingQuantity ord"
    and "l \<in> set (Levels (oppositeHeap ob ord))"
  shows "if Side ord = OrderSideBuy then Price ord < LevelPrice l else LevelPrice l < Price ord"
proof -
  let ?h = "oppositeHeap ob ord"
  have ok: "sideOk ?h" using assms(1) by (rule oppositeHeap_sideOk)
  have ne: "0 < Len ?h" using assms(4) by (auto simp: Len_def)
  then obtain best where pk: "Peek ?h = Some best" and b0: "best = Levels ?h ! 0"
    by (auto simp: Peek_def)
  have "Orders best \<noteq> []" using Peek_levelOk [OF ok pk] by (simp add: levelOk_def)
  then have stop: "(Side ord = OrderSideBuy \<and> LevelPrice best > Price ord)
      \<or> (Side ord = OrderSideSell \<and> LevelPrice best < Price ord)"
    using assms(2,3) ne pk by (simp add: limitStops_def)
  have bid: "IsBid ?h \<longleftrightarrow> Side ord \<noteq> OrderSideBuy"
    using assms(1) by (simp add: bookOk_def oppositeHeap_def)
  show ?thesis
    using sideOk_top [OF ok assms(4)] stop bid b0 by (auto split: if_splits)
qed

lemma matchLimitOrder_bookOk:
  assumes "bookOk ob"
  shows "bookOk (fst (matchLimitOrder now u ob ord))"
proof -
  obtain ob' ord' ts' where l: "matchLimitLoop now u ob ord [] = (ob', ord', ts')"
    by (cases "matchLimitLoop now u ob ord []")
  have ok: "bookOk ob'" and stop: "limitStops ob' ord'"
    using matchLimitLoop_bookOk [OF assms, where now = now and u = u and ord = ord and ts = "[]"] l
    by auto
  show ?thesis
  proof (cases "0 < RemainingQuantity ord'")
    case False
    then show ?thesis using ok l by (simp add: matchLimitOrder_def)
  next
    case True
    have beyond: "if Side ord' = OrderSideBuy then Price ord' < LevelPrice x
                  else LevelPrice x < Price ord'"
      if "x \<in> set (Levels (oppositeHeap ob' ord'))" for x
      using limitStops_beyond [OF ok stop True that] .
    have "bookOk (BookAddOrder now ob' ord')"
    proof (cases "Side ord' = OrderSideBuy")
      case buy: True
      have s: "sideOk (Bids ob')" using ok by (simp add: bookOk_def)
      note a = AddOrder_sideOk [OF s True]
      have "LevelPrice b < LevelPrice x"
        if "b \<in> set (Levels (AddOrder (Bids ob') ord'))" "x \<in> set (Levels (Asks ob'))" for b x
      proof -
        have "LevelPrice b = Price ord' \<or> LevelPrice b \<in> LevelPrice ` set (Levels (Bids ob'))"
          using a(2) that(1) by auto
        then show ?thesis
          using beyond [of x] that(2) buy ok by (auto simp: oppositeHeap_def bookOk_def)
      qed
      then show ?thesis
        using ok a(1) buy by (simp add: BookAddOrder_def Let_def bookOk_def)
    next
      case sell: False
      have s: "sideOk (Asks ob')" using ok by (simp add: bookOk_def)
      note a = AddOrder_sideOk [OF s True]
      have "LevelPrice b < LevelPrice x"
        if "x \<in> set (Levels (AddOrder (Asks ob') ord'))" "b \<in> set (Levels (Bids ob'))" for b x
      proof -
        have "LevelPrice x = Price ord' \<or> LevelPrice x \<in> LevelPrice ` set (Levels (Asks ob'))"
          using a(2) that(1) by auto
        then show ?thesis
          using beyond [of b] that(2) sell ok by (auto simp: oppositeHeap_def bookOk_def)
      qed
      then show ?thesis
        using ok a(1) sell by (simp add: BookAddOrder_def Let_def bookOk_def)
    qed
    then show ?thesis using True l by (simp add: matchLimitOrder_def)
  qed
qed

lemma NewOrderBook_bookOk: "bookOk (NewOrderBook now symbol)"
  by (simp add: bookOk_def NewOrderBook_def NewBidHeap_def NewAskHeap_def sideOk_def
      heapOrdered_def heapUpto_def)

lemma SubmitOrder_engineOk:
  assumes "engineOk me"
  shows "engineOk (fst (SubmitOrder now u me ord))"
proof -
  obtain me1 ob where g: "GetOrCreateOrderBook now me (Symbol ord) = (me1, ob)"
    by (cases "GetOrCreateOrderBook now me (Symbol ord)")
  have ob: "bookOk ob" and me1: "engineOk me1"
    using g assms NewOrderBook_bookOk
    by (auto simp: GetOrCreateOrderBook_def engineOk_def Let_def split: option.splits if_splits)
  define r where "r = (case Type ord of
                   OrderTypeMarket \<Rightarrow> matchMarketOrder now u ob ord
                 | OrderTypeLimit \<Rightarrow> matchLimitOrder now u ob ord
                 | OrderTypeStopLoss \<Rightarrow>
                     matchLimitOrder now u ob (ord \<lparr> Type := OrderTypeLimit \<rparr>))"
  have "bookOk (fst r)"
    using matchMarketOrder_bookOk [OF ob] matchLimitOrder_bookOk [OF ob]
    by (simp add: r_def split: OrderType.splits)
  then show ?thesis
    using me1 by (auto simp: SubmitOrder_def g r_def [symmetric] engineOk_def split: prod.splits)
qed

text \<open>
  The engines that can arise: the empty engine, and whatever a call of \<open>SubmitOrder\<close> (with
  any order, at any instant) makes of one that can arise.
\<close>

inductive reachable :: "MatchingEngine \<Rightarrow> bool" where
  reachable_new: "reachable NewMatchingEngine"
| reachable_submit: "reachable me \<Longrightarrow> reachable (fst (SubmitOrder now u me ord))"

lemma reachable_engineOk: "reachable me \<Longrightarrow> engineOk me"
proof (induction rule: reachable.induct)
  case reachable_new
  show ?case by (simp add: engineOk_def NewMatchingEngine_def)
next
  case (reachable_submit me now u ord)
  then show ?case by (simp add: SubmitOrder_engineOk)
qed

text \<open>
  Claim C1. In every engine reached from the empty engine by calls of \<open>SubmitOrder\<close> (this
  covers every sequence of submissions the claim speaks of; nothing is asked of the orders),
  whenever both sides of a symbol's book have a level, the best bid, as \<open>GetBestBid\<close> reports
  it, is strictly below the best ask, as \<open>GetBestAsk\<close> reports it.
\<close>

theorem book_never_crossed:
  assumes "reachable me" and "orderBooks me symbol = Some ob"
    and "0 < Len (Bids ob)" and "0 < Len (Asks ob)"
  shows "GetBestBid ob < GetBestAsk ob"
proof -
  have "bookOk ob" using reachable_engineOk [OF assms(1)] assms(2) by (simp add: engineOk_def)
  moreover have "Levels (Bids ob) ! 0 \<in> set (Levels (Bids ob))"
    "Levels (Asks ob) ! 0 \<in> set (Levels (Asks ob))"
    using assms(3,4) by (simp_all add: Len_def)
  ultimately show ?thesis
    using assms(3,4) by (simp add: GetBestBid_def GetBestAsk_def bookOk_def)
qed

text \<open>
  A sell limit order at 152 followed by a buy limit order at 150 leaves both resting.
\<close>

theorem book_never_crossed_witness:
  "reachable (fst (SubmitOrder 1 100
       (fst (SubmitOrder 0 100 NewMatchingEngine
          (NewOrder 1 0 ''AAPL'' OrderTypeLimit OrderSideSell 100 152)))
       (NewOrder 2 1 ''AAPL'' OrderTypeLimit OrderSideBuy 100 150)))
   \<and> 0 < Len (Bids (the (orderBooks (fst (SubmitOrder 1 100
       (fst (SubmitOrder 0 100 NewMatchingEngine
          (NewOrder 1 0 ''AAPL'' OrderTypeLimit OrderSideSell 100 152)))
       (NewOrder 2 1 ''AAPL'' OrderTypeLimit OrderSideBuy 100 150))) ''AAPL'')))
   \<and> 0 < Len (Asks (the (orderBooks (fst (SubmitOrder 1 100
       (fst (SubmitOrder 0 100 NewMatchingEngine
          (NewOrder 1 0 ''AAPL'' OrderTypeLimit OrderSideSell 100 152)))
       (NewOrder 2 1 ''AAPL'' OrderTypeLimit OrderSideBuy 100 150))) ''AAPL'')))
   \<and> GetBestBid (the (orderBooks (fst (SubmitOrder 1 100
       (fst (SubmitOrder 0 100 NewMatchingEngine
          (NewOrder 1 0 ''AAPL'' OrderTypeLimit OrderSideSell 100 152)))
       (NewOrder 2 1 ''AAPL'' OrderTypeLimit OrderSideBuy 100 150))) ''AAPL''))
     < GetBestAsk (the (orderBooks (fst (SubmitOrder 1 100
       (fst (SubmitOrder 0 100 NewMatchingEngine
          (NewOrder 1 0 ''AAPL'' OrderTypeLimit OrderSideSell 100 152)))
       (NewOrder 2 1 ''AAPL'' OrderTypeLimit OrderSideBuy 100 150))) ''AAPL''))"
proof -
  let ?e = "fst (SubmitOrder 1 100
       (fst (SubmitOrder 0 100 NewMatchingEngine
          (NewOrder 1 0 ''AAPL'' OrderTypeLimit OrderSideSell 100 152)))
       (NewOrder 2 1 ''AAPL'' OrderTypeLimit OrderSideBuy 100 150))"
  let ?ob = "the (orderBooks ?e ''AAPL'')"
  have r: "reachable ?e"
    by (intro reachable.intros)
  have "orderBooks ?e ''AAPL'' \<noteq> None"
    by code_simp
  then have b: "orderBooks ?e ''AAPL'' = Some ?ob"
    by simp
  have l: "0 < Len (Bids ?ob)" "0 < Len (Asks ?ob)"
    by code_simp+
  show ?thesis
    using book_never_crossed [OF r b l] r l by simp
qed

section \<open>Where trades come from\<close>

text \<open>
  \<open>tradeAgainst ord r t\<close>: trade \<open>t\<close> is at the price of \<open>r\<close> and names the incoming order
  \<open>ord\<close> and \<open>r\<close> as buyer and seller, by the side of \<open>ord\<close>. \<open>restingOrders h\<close> are the
  orders in the levels of one side.
\<close>

definition tradeAgainst :: "Order \<Rightarrow> Order \<Rightarrow> Trade \<Rightarrow> bool" where
  "tradeAgainst ord r t \<longleftrightarrow>
     TradePrice t = Price r \<and>
     (if Side ord = OrderSideBuy then BuyOrderID t = ID ord \<and> SellOrderID t = ID r
      else BuyOrderID t = ID r \<and> SellOrderID t = ID ord)"

definition restingOrders :: "PriceLevelHeap \<Rightarrow> Order set" where
  "restingOrders h = (\<Union>l \<in> set (Levels h). set (Orders l))"

definition fromLevel :: "Order list \<Rightarrow> Order list \<Rightarrow> bool" where
  "fromLevel rs' rs \<longleftrightarrow> (\<forall>r' \<in> set rs'. \<exists>r \<in> set rs. ID r' = ID r \<and> Price r' = Price r)"

definition tradesFrom :: "Order \<Rightarrow> Order set \<Rightarrow> Trade list \<Rightarrow> Trade list \<Rightarrow> bool" where
  "tradesFrom ord R ts' ts \<longleftrightarrow>
     (\<forall>t \<in> set ts'. t \<in> set ts \<or> (\<exists>r \<in> R. tradeAgainst ord r t))"

lemma tradeAgainst_cong:
  "sameIdentity ord' ord \<Longrightarrow> ID r' = ID r \<Longrightarrow> Price r' = Price r
     \<Longrightarrow> tradeAgainst ord' r' t = tradeAgainst ord r t"
  by (simp add: tradeAgainst_def sameIdentity_def)

lemma matchStep_trade:
  "\<exists>t. lvTrades (matchStep now u s) = lvTrades s @ [t]
       \<and> tradeAgainst (lvOrder s) (hd (lvOrders s)) t
       \<and> TradeQuantity t
           = fmin (RemainingQuantity (lvOrder s)) (RemainingQuantity (hd (lvOrders s)))"
  by (simp add: matchStep_def Let_def tradeAgainst_def NewTrade_def)

lemma matchStep_fromLevel:
  "lvOrders s \<noteq> [] \<Longrightarrow> fromLevel (lvOrders (matchStep now u s)) (lvOrders s)"
  by (cases "lvOrders s") (auto simp: matchStep_def Let_def fromLevel_def)

lemma fromLevel_trans: "fromLevel a b \<Longrightarrow> fromLevel b c \<Longrightarrow> fromLevel a c"
  unfolding fromLevel_def by (metis)

definition levelInv :: "LevelState \<Rightarrow> LevelState \<Rightarrow> bool" where
  "levelInv s t \<longleftrightarrow>
     sameIdentity (lvOrder t) (lvOrder s) \<and> fromLevel (lvOrders t) (lvOrders s) \<and>
     tradesFrom (lvOrder s) (set (lvOrders s)) (lvTrades t) (lvTrades s)"

lemma levelInv_refl: "levelInv s s"
  by (auto simp: levelInv_def sameIdentity_def fromLevel_def tradesFrom_def)

lemma levelInv_step:
  assumes "levelInv s t" and "lvOrders t \<noteq> []"
  shows "levelInv s (matchStep now u t)"
proof -
  obtain x where x: "lvTrades (matchStep now u t) = lvTrades t @ [x]"
    "tradeAgainst (lvOrder t) (hd (lvOrders t)) x"
    using matchStep_trade [of now u t] by blast
  have "hd (lvOrders t) \<in> set (lvOrders t)" using assms(2) by simp
  then obtain r where r: "r \<in> set (lvOrders s)" "ID (hd (lvOrders t)) = ID r"
    "Price (hd (lvOrders t)) = Price r"
    using assms(1) by (auto simp: levelInv_def fromLevel_def)
  have "tradeAgainst (lvOrder s) r x"
    using x(2) tradeAgainst_cong [of "lvOrder t" "lvOrder s" "hd (lvOrders t)" r x] r assms(1)
    by (simp add: levelInv_def)
  then have "tradesFrom (lvOrder s) (set (lvOrders s)) (lvTrades (matchStep now u t)) (lvTrades s)"
    using assms(1) r(1) x(1) by (auto simp: levelInv_def tradesFrom_def)
  moreover have "fromLevel (lvOrders (matchStep now u t)) (lvOrders s)"
    using matchStep_fromLevel [OF assms(2), of now u] assms(1) fromLevel_trans
    by (auto simp: levelInv_def)
  moreover have "sameIdentity (lvOrder (matchStep now u t)) (lvOrder s)"
    using matchStep_sameIdentity [of now u t] assms(1)
    by (simp add: levelInv_def sameIdentity_def)
  ultimately show ?thesis by (simp add: levelInv_def)
qed

lemma matchLimitLevel_levelInv: "levelInv s (matchLimitLevel now u s)"
proof (rule matchLimitLevel_rule [where P = "levelInv s"], goal_cases)
  case 1
  show ?case by (rule levelInv_refl)
next
  case (2 t)
  show ?case by (rule levelInv_step [OF 2(1) 2(2)])
qed

lemma matchMarketLevel_levelInv: "levelInv s (matchMarketLevel now u s)"
proof (rule matchMarketLevel_rule [where P = "levelInv s"], goal_cases)
  case 1
  show ?case by (rule levelInv_refl)
next
  case (2 t)
  show ?case by (rule levelInv_step [OF 2(1) 2(2)])
qed

lemma heap_Pop_levels:
  "Levels h \<noteq> [] \<Longrightarrow> set (Levels (snd (heap_Pop h))) = set (tl (Levels h))"
proof -
  assume "Levels h \<noteq> []"
  then have "mset (Levels (snd (heap_Pop h))) = mset (tl (Levels h))"
    by (rule heap_Pop_mset)
  then have "set_mset (mset (Levels (snd (heap_Pop h)))) = set_mset (mset (tl (Levels h)))"
    by (rule arg_cong)
  then show ?thesis by simp
qed

lemma heap_Pop_restingOrders:
  "Levels h \<noteq> [] \<Longrightarrow> restingOrders (snd (heap_Pop h)) \<subseteq> restingOrders h"
proof -
  assume ne: "Levels h \<noteq> []"
  have "set (tl (Levels h)) \<subseteq> set (Levels h)"
    using ne by (cases "Levels h") auto
  then show ?thesis
    using heap_Pop_levels [OF ne] by (auto simp: restingOrders_def)
qed

lemma closeLevel_levels:
  assumes "Levels h \<noteq> []"
  shows "set (Levels (closeLevel h rs))
           \<subseteq> insert ((Levels h ! 0) \<lparr> Orders := rs \<rparr>) (set (tl (Levels h)))"
proof -
  obtain l ls where L: "Levels h = l # ls" using assms by (cases "Levels h") auto
  let ?h1 = "h \<lparr> Levels := (Levels h) [0 := (Levels h ! 0) \<lparr> Orders := rs \<rparr>] \<rparr>"
  have L1: "Levels ?h1 = l \<lparr> Orders := rs \<rparr> # ls" by (simp add: L)
  show ?thesis
  proof (cases "rs = []")
    case True
    have "set (Levels (snd (heap_Pop ?h1))) = set ls"
      using heap_Pop_levels [of ?h1] L1 by simp
    then show ?thesis using True by (auto simp: closeLevel_def Let_def L)
  next
    case False
    then show ?thesis using L1 by (auto simp: closeLevel_def Let_def L)
  qed
qed

lemma closeLevel_restingOrders:
  assumes "Levels h \<noteq> []"
  shows "restingOrders (closeLevel h rs) \<subseteq> set rs \<union> restingOrders h"
proof
  fix r assume "r \<in> restingOrders (closeLevel h rs)"
  then obtain l where l: "l \<in> set (Levels (closeLevel h rs))" "r \<in> set (Orders l)"
    by (auto simp: restingOrders_def)
  then have "l = (Levels h ! 0) \<lparr> Orders := rs \<rparr> \<or> l \<in> set (tl (Levels h))"
    using closeLevel_levels [OF assms, of rs] by auto
  then show "r \<in> set rs \<union> restingOrders h"
  proof
    assume "l = (Levels h ! 0) \<lparr> Orders := rs \<rparr>"
    then show ?thesis using l(2) by simp
  next
    assume "l \<in> set (tl (Levels h))"
    then have "l \<in> set (Levels h)" using assms by (metis list.set_sel(2))
    then show ?thesis using l(2) by (auto simp: restingOrders_def)
  qed
qed

lemma oppositeHeap_afterLevel:
  "Side ord' = Side ord \<Longrightarrow>
     oppositeHeap (afterLevel ob ord s) ord' = closeLevel (oppositeHeap ob ord) (lvOrders s)"
  by (simp add: afterLevel_closeLevel oppositeHeap_def setOppositeHeap_def)

lemma oppositeHeap_setOppositeHeap:
  "Side ord' = Side ord \<Longrightarrow> oppositeHeap (setOppositeHeap ob ord h) ord' = h"
  by (simp add: oppositeHeap_def setOppositeHeap_def)

text \<open>
  \<open>bookInv ob ord ts ob' ord' ts'\<close> relates the state in which a matching loop starts to a
  later one: the incoming order has kept its identity, every order now resting on the
  opposite side rested there at the start (same identifier, same price), and every trade
  added since then is against an order that rested there at the start, at that order's
  price.
\<close>

definition bookInv ::
  "OrderBook \<Rightarrow> Order \<Rightarrow> Trade list \<Rightarrow> OrderBook \<Rightarrow> Order \<Rightarrow> Trade list \<Rightarrow> bool" where
  "bookInv ob ord ts ob' ord' ts' \<longleftrightarrow>
     sameIdentity ord' ord \<and>
     (\<forall>r' \<in> restingOrders (oppositeHeap ob' ord).
        \<exists>r \<in> restingOrders (oppositeHeap ob ord). ID r' = ID r \<and> Price r' = Price r) \<and>
     tradesFrom ord (restingOrders (oppositeHeap ob ord)) ts' ts"

lemma bookInv_refl: "bookInv ob ord ts ob ord ts"
  by (auto simp: bookInv_def sameIdentity_def tradesFrom_def)

lemma bookInv_afterLevel:
  assumes inv: "bookInv ob ord ts ob1 ord1 ts1"
    and pk: "Peek (oppositeHeap ob1 ord1) = Some bestLevel"
    and lv: "levelInv (levelState ob1 ord1 ts1 bestLevel) s"
  shows "bookInv ob ord ts (afterLevel ob1 ord1 s) (lvOrder s) (lvTrades s)"
proof -
  let ?h0 = "oppositeHeap ob ord" and ?h1 = "oppositeHeap ob1 ord1"
  have side: "Side ord1 = Side ord" and id1: "sameIdentity ord1 ord"
    using inv by (simp_all add: bookInv_def sameIdentity_def)
  have h1: "oppositeHeap ob1 ord = ?h1" using side by (simp add: oppositeHeap_def)
  have ne: "Levels ?h1 \<noteq> []" and best: "bestLevel \<in> set (Levels ?h1)"
    using pk by (auto simp: Peek_def Len_def split: if_splits)
  have old: "\<exists>r \<in> restingOrders ?h0. ID r' = ID r \<and> Price r' = Price r"
    if "r' \<in> restingOrders ?h1" for r'
    using inv that h1 by (simp add: bookInv_def)
  have lvl: "\<exists>r \<in> restingOrders ?h0. ID r' = ID r \<and> Price r' = Price r"
    if "r' \<in> set (Orders bestLevel)" for r'
    using old [of r'] that best by (auto simp: restingOrders_def)
  have s_id: "sameIdentity (lvOrder s) ord"
    using lv id1 by (simp add: levelInv_def levelState_def sameIdentity_def)
  have s_rs: "\<exists>r \<in> restingOrders ?h0. ID r' = ID r \<and> Price r' = Price r"
    if "r' \<in> set (lvOrders s)" for r'
  proof -
    note mem = that
    obtain r1 where "r1 \<in> set (Orders bestLevel)" "ID r' = ID r1" "Price r' = Price r1"
      using lv mem by (auto simp: levelInv_def levelState_def fromLevel_def)
    then show ?thesis using lvl [of r1] by auto
  qed
  have rest: "\<exists>r \<in> restingOrders ?h0. ID r' = ID r \<and> Price r' = Price r"
    if "r' \<in> restingOrders (oppositeHeap (afterLevel ob1 ord1 s) ord)" for r'
  proof -
    have "r' \<in> set (lvOrders s) \<union> restingOrders ?h1"
      using that closeLevel_restingOrders [OF ne, of "lvOrders s"]
        oppositeHeap_afterLevel [of ord ord1 ob1 s] side by auto
    then show ?thesis using s_rs old by blast
  qed
  have tr: "tradesFrom ord (restingOrders ?h0) (lvTrades s) ts"
    unfolding tradesFrom_def
  proof
    fix x assume "x \<in> set (lvTrades s)"
    then consider "x \<in> set ts1" | r1 where "r1 \<in> set (Orders bestLevel)" "tradeAgainst ord1 r1 x"
      using lv by (auto simp: levelInv_def levelState_def tradesFrom_def)
    then show "x \<in> set ts \<or> (\<exists>r \<in> restingOrders ?h0. tradeAgainst ord r x)"
    proof cases
      case 1
      then show ?thesis using inv by (auto simp: bookInv_def tradesFrom_def)
    next
      case 2
      obtain r where r: "r \<in> restingOrders ?h0" "ID r1 = ID r" "Price r1 = Price r"
        using lvl [OF 2(1)] by auto
      have "tradeAgainst ord r x"
        using 2(2) tradeAgainst_cong [OF id1 r(2) r(3), of x] by simp
      then show ?thesis using r(1) by auto
    qed
  qed
  show ?thesis using s_id rest tr by (simp add: bookInv_def)
qed

lemma matchLimitLoop_bookInv:
  "case matchLimitLoop now u ob ord ts of (ob', ord', ts') \<Rightarrow> bookInv ob ord ts ob' ord' ts'"
proof -
  have "case matchLimitLoop now u ob ord ts of
          (ob', ord', ts') \<Rightarrow> bookInv ob ord ts ob' ord' ts' \<and> limitStops ob' ord'"
  proof (rule matchLimitLoop_rule [where P = "bookInv ob ord ts"], goal_cases)
    case 1
    show ?case by (rule bookInv_refl)
  next
    case (2 ob1 ord1 ts1 bestLevel s)
    have "levelInv (levelState ob1 ord1 ts1 bestLevel) s"
      unfolding 2(8) by (rule matchLimitLevel_levelInv)
    then show ?case by (rule bookInv_afterLevel [OF 2(1) 2(4)])
  qed
  then show ?thesis by (auto split: prod.splits)
qed

lemma matchMarketLoop_bookInv:
  "case matchMarketLoop now u ob ord ts of (ob', ord', ts') \<Rightarrow> bookInv ob ord ts ob' ord' ts'"
proof -
  have "case matchMarketLoop now u ob ord ts of
          (ob', ord', ts') \<Rightarrow> bookInv ob ord ts ob' ord' ts'
            \<and> \<not> (RemainingQuantity ord' > 0 \<and> Len (oppositeHeap ob' ord') > 0)"
  proof (rule matchMarketLoop_rule [where P = "bookInv ob ord ts"], goal_cases)
    case 1
    show ?case by (rule bookInv_refl)
  next
    case (2 ob1 ord1 ts1 bestLevel)
    have side: "Side ord1 = Side ord" using 2(1) by (simp add: bookInv_def sameIdentity_def)
    have ne: "Levels (oppositeHeap ob1 ord1) \<noteq> []" using 2(3) by (auto simp: Len_def)
    have "oppositeHeap ob1 ord = oppositeHeap ob1 ord1"
      using side by (simp add: oppositeHeap_def)
    then have "restingOrders (snd (heap_Pop (oppositeHeap ob1 ord1)))
            \<subseteq> restingOrders (oppositeHeap ob1 ord)"
      using heap_Pop_restingOrders [OF ne] by simp
    then show ?case
      using 2(1) side oppositeHeap_setOppositeHeap [of ord ord1 ob1]
      by (auto simp: bookInv_def)
  next
    case (3 ob1 ord1 ts1 bestLevel s)
    have "levelInv (levelState ob1 ord1 ts1 bestLevel) s"
      unfolding 3(6) by (rule matchMarketLevel_levelInv)
    then show ?case by (rule bookInv_afterLevel [OF 3(1) 3(4)])
  qed
  then show ?thesis by (auto split: prod.splits)
qed

lemma matchLimitOrder_trades:
  assumes "t \<in> set (snd (snd (matchLimitOrder now u ob ord)))"
  shows "\<exists>r \<in> restingOrders (oppositeHeap ob ord). tradeAgainst ord r t"
proof -
  obtain ob' ord' ts' where l: "matchLimitLoop now u ob ord [] = (ob', ord', ts')"
    by (cases "matchLimitLoop now u ob ord []")
  have "tradesFrom ord (restingOrders (oppositeHeap ob ord)) ts' []"
    using matchLimitLoop_bookInv [where now = now and u = u and ob = ob and ord = ord and ts = "[]"] l by (simp add: bookInv_def)
  moreover have "t \<in> set ts'"
    using assms l by (simp add: matchLimitOrder_def split: if_splits)
  ultimately show ?thesis by (auto simp: tradesFrom_def)
qed

lemma matchMarketOrder_trades:
  assumes "t \<in> set (snd (snd (matchMarketOrder now u ob ord)))"
  shows "\<exists>r \<in> restingOrders (oppositeHeap ob ord). tradeAgainst ord r t"
proof -
  obtain ob' ord' ts' where l: "matchMarketLoop now u ob ord [] = (ob', ord', ts')"
    by (cases "matchMarketLoop now u ob ord []")
  have "tradesFrom ord (restingOrders (oppositeHeap ob ord)) ts' []"
    using matchMarketLoop_bookInv [where now = now and u = u and ob = ob and ord = ord and ts = "[]"] l by (simp add: bookInv_def)
  moreover have "t \<in> set ts'"
    using assms l by (simp add: matchMarketOrder_def)
  ultimately show ?thesis by (auto simp: tradesFrom_def)
qed

text \<open>
  Claim C2. Every trade that \<open>SubmitOrder\<close> returns is made against an order that rests on
  the opposite side of the symbol's book when the call begins: the trade has that order's
  price and names it as the counterparty of the submitted order. (The inner loop takes the
  price from the order at the head of the best level, \<open>matchStep\<close>; an order's price never
  changes while it rests, so its price at the match is its price at the start.) The price
  of the submitted order plays no part.
\<close>

theorem trades_at_resting_price:
  assumes "t \<in> set (snd (snd (SubmitOrder now u me ord)))"
  shows "\<exists>r \<in> restingOrders (oppositeHeap (snd (GetOrCreateOrderBook now me (Symbol ord))) ord).
           TradePrice t = Price r \<and>
           (if Side ord = OrderSideBuy then BuyOrderID t = ID ord \<and> SellOrderID t = ID r
            else BuyOrderID t = ID r \<and> SellOrderID t = ID ord)"
proof -
  obtain me1 ob where g: "GetOrCreateOrderBook now me (Symbol ord) = (me1, ob)"
    by (cases "GetOrCreateOrderBook now me (Symbol ord)")
  let ?lim = "ord \<lparr> Type := OrderTypeLimit \<rparr>"
  have "\<exists>r \<in> restingOrders (oppositeHeap ob ord). tradeAgainst ord r t"
  proof (cases "Type ord")
    case OrderTypeMarket
    then have "t \<in> set (snd (snd (matchMarketOrder now u ob ord)))"
      using assms by (simp add: SubmitOrder_def g split: prod.splits)
    then show ?thesis by (rule matchMarketOrder_trades)
  next
    case OrderTypeLimit
    then have "t \<in> set (snd (snd (matchLimitOrder now u ob ord)))"
      using assms by (simp add: SubmitOrder_def g split: prod.splits)
    then show ?thesis by (rule matchLimitOrder_trades)
  next
    case OrderTypeStopLoss
    then have "t \<in> set (snd (snd (matchLimitOrder now u ob ?lim)))"
      using assms by (simp add: SubmitOrder_def g split: prod.splits)
    then have "\<exists>r \<in> restingOrders (oppositeHeap ob ?lim). tradeAgainst ?lim r t"
      by (rule matchLimitOrder_trades)
    moreover have "oppositeHeap ob ?lim = oppositeHeap ob ord"
      by (simp add: oppositeHeap_def)
    moreover have "tradeAgainst ?lim r t = tradeAgainst ord r t" for r
      by (simp add: tradeAgainst_def)
    ultimately show ?thesis by simp
  qed
  then show ?thesis by (simp add: g tradeAgainst_def)
qed

text \<open>
  Two sell orders rest at 150 and 151; a market buy order of 100 trades with both. Its
  second trade is against the order at 151, identifier 2.
\<close>

theorem trades_at_resting_price_witness:
  "snd (snd (SubmitOrder 2 100
      (fst (SubmitOrder 1 100
         (fst (SubmitOrder 0 100 NewMatchingEngine
            (NewOrder 1 0 ''AAPL'' OrderTypeLimit OrderSideSell 50 150)))
         (NewOrder 2 1 ''AAPL'' OrderTypeLimit OrderSideSell 50 151)))
      (NewOrder 3 2 ''AAPL'' OrderTypeMarket OrderSideBuy 100 0))) ! 1
    \<in> set (snd (snd (SubmitOrder 2 100
      (fst (SubmitOrder 1 100
         (fst (SubmitOrder 0 100 NewMatchingEngine
            (NewOrder 1 0 ''AAPL'' OrderTypeLimit OrderSideSell 50 150)))
         (NewOrder 2 1 ''AAPL'' OrderTypeLimit OrderSideSell 50 151)))
      (NewOrder 3 2 ''AAPL'' OrderTypeMarket OrderSideBuy 100 0))))
   \<and> (\<exists>r \<in> restingOrders (Asks (snd (GetOrCreateOrderBook 2
          (fst (SubmitOrder 1 100
             (fst (SubmitOrder 0 100 NewMatchingEngine
                (NewOrder 1 0 ''AAPL'' OrderTypeLimit OrderSideSell 50 150)))
             (NewOrder 2 1 ''AAPL'' OrderTypeLimit OrderSideSell 50 151))) ''AAPL''))).
         Price r = 151 \<and> ID r = 2)"
proof -
  let ?e = "fst (SubmitOrder 1 100
         (fst (SubmitOrder 0 100 NewMatchingEngine
            (NewOrder 1 0 ''AAPL'' OrderTypeLimit OrderSideSell 50 150)))
         (NewOrder 2 1 ''AAPL'' OrderTypeLimit OrderSideSell 50 151))"
  let ?m = "NewOrder 3 2 ''AAPL'' OrderTypeMarket OrderSideBuy 100 0"
  let ?ts = "snd (snd (SubmitOrder 2 100 ?e ?m))"
  have mem: "?ts ! 1 \<in> set ?ts"
    by code_simp
  have val: "TradePrice (?ts ! 1) = 151" "SellOrderID (?ts ! 1) = 2"
    by code_simp+
  have ord: "Side ?m = OrderSideBuy" "Symbol ?m = ''AAPL''"
    by (simp_all add: NewOrder_def)
  obtain r where r:
    "r \<in> restingOrders (oppositeHeap (snd (GetOrCreateOrderBook 2 ?e (Symbol ?m))) ?m)"
    "TradePrice (?ts ! 1) = Price r"
    "if Side ?m = OrderSideBuy then BuyOrderID (?ts ! 1) = ID ?m \<and> SellOrderID (?ts ! 1) = ID r
     else BuyOrderID (?ts ! 1) = ID r \<and> SellOrderID (?ts ! 1) = ID ?m"
    using trades_at_resting_price [OF mem] by blast
  have "r \<in> restingOrders (Asks (snd (GetOrCreateOrderBook 2 ?e ''AAPL'')))"
    using r(1) by (simp add: ord oppositeHeap_def)
  moreover have "Price r = 151" "ID r = 2"
    using r(2,3) val by (simp_all add: ord)
  ultimately show ?thesis
    using mem by blast
qed

section \<open>The limit price\<close>

text \<open>Within the limit: how a trade price stands to the limit price of the order.\<close>

definition withinLimit :: "Order \<Rightarrow> Trade \<Rightarrow> bool" where
  "withinLimit ord t \<longleftrightarrow>
     (if Side ord = OrderSideBuy then TradePrice t \<le> Price ord else Price ord \<le> TradePrice t)"

lemma matchLimitLoop_withinLimit:
  assumes "bookOk ob" and "\<forall>x \<in> set ts. withinLimit ord x"
  shows "case matchLimitLoop now u ob ord ts of
           (ob', ord', ts') \<Rightarrow> \<forall>x \<in> set ts'. withinLimit ord x"
proof -
  have "case matchLimitLoop now u ob ord ts of
          (ob', ord', ts') \<Rightarrow>
            (bookOk ob' \<and> sameIdentity ord' ord \<and> (\<forall>x \<in> set ts'. withinLimit ord x))
            \<and> limitStops ob' ord'"
  proof (rule matchLimitLoop_rule
      [where P = "\<lambda>ob' ord' ts'. bookOk ob' \<and> sameIdentity ord' ord
                    \<and> (\<forall>x \<in> set ts'. withinLimit ord x)"], goal_cases)
    case 1
    show ?case using assms by (simp add: sameIdentity_def)
  next
    case (2 ob1 ord1 ts1 bestLevel s)
    have ok1: "bookOk ob1" and id1: "sameIdentity ord1 ord"
      and tr1: "\<forall>x \<in> set ts1. withinLimit ord x"
      using 2(1) by auto
    have lv: "levelOk bestLevel"
      using Peek_levelOk [OF oppositeHeap_sideOk 2(4)] ok1 by simp
    have "\<forall>r \<in> set (lvOrders (levelState ob1 ord1 ts1 bestLevel)).
            Price r = LevelPrice bestLevel \<and> 0 < RemainingQuantity r"
      using lv by (simp add: levelState_def levelOk_def)
    then have rs: "\<forall>r \<in> set (lvOrders s). Price r = LevelPrice bestLevel \<and> 0 < RemainingQuantity r"
      unfolding 2(8) by (rule matchLimitLevel_resting)
    have b: "bookOk (afterLevel ob1 ord1 s)"
      using afterLevel_bookOk [OF ok1 2(4) rs] .
    have li: "levelInv (levelState ob1 ord1 ts1 bestLevel) s"
      unfolding 2(8) by (rule matchLimitLevel_levelInv)
    have i: "sameIdentity (lvOrder s) ord"
      using li id1 by (simp add: levelInv_def levelState_def sameIdentity_def)
    have acc: "if Side ord = OrderSideBuy then LevelPrice bestLevel \<le> Price ord
               else Price ord \<le> LevelPrice bestLevel"
      using 2(6,7) id1 by (cases "Side ord") (auto simp: sameIdentity_def)
    have "withinLimit ord x" if "x \<in> set (lvTrades s)" for x
    proof -
      note mem = that
      consider "x \<in> set ts1" | r where "r \<in> set (Orders bestLevel)" "tradeAgainst ord1 r x"
        using li mem by (auto simp: levelInv_def levelState_def tradesFrom_def)
      then show ?thesis
      proof cases
        case 1
        then show ?thesis using tr1 by simp
      next
        case 2
        then have "TradePrice x = LevelPrice bestLevel"
          using lv by (simp add: tradeAgainst_def levelOk_def)
        then show ?thesis using acc by (simp add: withinLimit_def)
      qed
    qed
    then show ?case using b i by simp
  qed
  then show ?thesis by (auto split: prod.splits)
qed

text \<open>
  Claim C4. In an engine reached by submissions, for a submitted Limit order: if it buys,
  no trade of the call has a price above its limit price; if it sells, none has a price
  below it.
\<close>

theorem limit_price_respected:
  assumes "reachable me" and "Type ord = OrderTypeLimit"
    and "t \<in> set (snd (snd (SubmitOrder now u me ord)))"
  shows "(Side ord = OrderSideBuy \<longrightarrow> TradePrice t \<le> Price ord)
       \<and> (Side ord = OrderSideSell \<longrightarrow> Price ord \<le> TradePrice t)"
proof -
  obtain me1 ob where g: "GetOrCreateOrderBook now me (Symbol ord) = (me1, ob)"
    by (cases "GetOrCreateOrderBook now me (Symbol ord)")
  have ob: "bookOk ob"
    using g reachable_engineOk [OF assms(1)] NewOrderBook_bookOk
    by (auto simp: GetOrCreateOrderBook_def engineOk_def Let_def split: option.splits)
  obtain ob' ord' ts' where l: "matchLimitLoop now u ob ord [] = (ob', ord', ts')"
    by (cases "matchLimitLoop now u ob ord []")
  have "t \<in> set ts'"
    using assms(2,3) l by (simp add: SubmitOrder_def g matchLimitOrder_def split: if_splits)
  moreover have "\<forall>x \<in> set ts'. withinLimit ord x"
    using matchLimitLoop_withinLimit [OF ob, where ts = "[]" and ord = ord and now = now and u = u] l by simp
  ultimately have "withinLimit ord t" by simp
  then show ?thesis by (auto simp: withinLimit_def)
qed

text \<open>
  Sell orders rest at 150 and 152; a buy limit order of 100 at 151 trades once, at 150.
\<close>

theorem limit_price_respected_witness:
  "reachable (fst (SubmitOrder 1 100
         (fst (SubmitOrder 0 100 NewMatchingEngine
            (NewOrder 1 0 ''AAPL'' OrderTypeLimit OrderSideSell 50 150)))
         (NewOrder 2 1 ''AAPL'' OrderTypeLimit OrderSideSell 50 152)))
   \<and> hd (snd (snd (SubmitOrder 2 100
      (fst (SubmitOrder 1 100
         (fst (SubmitOrder 0 100 NewMatchingEngine
            (NewOrder 1 0 ''AAPL'' OrderTypeLimit OrderSideSell 50 150)))
         (NewOrder 2 1 ''AAPL'' OrderTypeLimit OrderSideSell 50 152)))
      (NewOrder 3 2 ''AAPL'' OrderTypeLimit OrderSideBuy 100 151))))
    \<in> set (snd (snd (SubmitOrder 2 100
      (fst (SubmitOrder 1 100
         (fst (SubmitOrder 0 100 NewMatchingEngine
            (NewOrder 1 0 ''AAPL'' OrderTypeLimit OrderSideSell 50 150)))
         (NewOrder 2 1 ''AAPL'' OrderTypeLimit OrderSideSell 50 152)))
      (NewOrder 3 2 ''AAPL'' OrderTypeLimit OrderSideBuy 100 151))))
   \<and> TradePrice (hd (snd (snd (SubmitOrder 2 100
      (fst (SubmitOrder 1 100
         (fst (SubmitOrder 0 100 NewMatchingEngine
            (NewOrder 1 0 ''AAPL'' OrderTypeLimit OrderSideSell 50 150)))
         (NewOrder 2 1 ''AAPL'' OrderTypeLimit OrderSideSell 50 152)))
      (NewOrder 3 2 ''AAPL'' OrderTypeLimit OrderSideBuy 100 151))))) \<le> 151"
proof -
  let ?e = "fst (SubmitOrder 1 100
         (fst (SubmitOrder 0 100 NewMatchingEngine
            (NewOrder 1 0 ''AAPL'' OrderTypeLimit OrderSideSell 50 150)))
         (NewOrder 2 1 ''AAPL'' OrderTypeLimit OrderSideSell 50 152))"
  let ?b = "NewOrder 3 2 ''AAPL'' OrderTypeLimit OrderSideBuy 100 151"
  let ?ts = "snd (snd (SubmitOrder 2 100 ?e ?b))"
  have r: "reachable ?e"
    by (intro reachable.intros)
  have ty: "Type ?b = OrderTypeLimit"
    by (simp add: NewOrder_def)
  have mem: "hd ?ts \<in> set ?ts"
    by code_simp
  have ord: "Side ?b = OrderSideBuy" "Price ?b = 151"
    by (simp_all add: NewOrder_def)
  show ?thesis
    using limit_price_respected [OF r ty mem] r mem by (simp add: ord)
qed

section \<open>Market orders\<close>

text \<open>\<open>ownHeap\<close> is the side on which the order itself would rest.\<close>

definition ownHeap :: "OrderBook \<Rightarrow> Order \<Rightarrow> PriceLevelHeap" where
  "ownHeap ob ord = (if Side ord = OrderSideBuy then Bids ob else Asks ob)"

text \<open>
  \<open>fillState ord ts\<close>: what the fills of the trades \<open>ts\<close> have made of an order that was
  pending and unfilled: untouched when there is no trade; otherwise with a positive filled
  quantity and the status that \<open>Fill\<close> sets.
\<close>

definition fillState :: "Order \<Rightarrow> Trade list \<Rightarrow> bool" where
  "fillState ord ts \<longleftrightarrow>
     (if ts = [] then Status ord = OrderStatusPending \<and> FilledQuantity ord = 0
      else 0 < FilledQuantity ord \<and>
           Status ord = (if IsFilled ord then OrderStatusFilled else OrderStatusPartial))"

lemma matchStep_fillState:
  assumes "fillState (lvOrder s) (lvTrades s)" and "lvOrders s \<noteq> []"
    and "0 < RemainingQuantity (lvOrder s)" and "0 < RemainingQuantity (hd (lvOrders s))"
  shows "fillState (lvOrder (matchStep now u s)) (lvTrades (matchStep now u s))"
proof -
  let ?q = "fmin (RemainingQuantity (lvOrder s)) (RemainingQuantity (hd (lvOrders s)))"
  have q: "0 < ?q" using assms(3,4) by (simp add: fmin_def)
  have f: "0 \<le> FilledQuantity (lvOrder s)"
    using assms(1) by (auto simp: fillState_def split: if_splits)
  have "lvOrder (matchStep now u s) = Fill now ?q (Price (hd (lvOrders s))) (lvOrder s)"
    by (simp add: matchStep_def Let_def)
  moreover have "lvTrades (matchStep now u s) \<noteq> []"
    by (simp add: matchStep_def Let_def)
  moreover have "0 < FilledQuantity (Fill now ?q p (lvOrder s))" for p
    using q f by simp
  moreover have "Status (Fill now ?q p (lvOrder s))
      = (if IsFilled (Fill now ?q p (lvOrder s)) then OrderStatusFilled else OrderStatusPartial)"
    for p
    using q f by (simp add: Fill_def Let_def IsFilled_def)
  ultimately show ?thesis by (simp add: fillState_def)
qed

lemma matchMarketLevel_fillState:
  assumes "fillState (lvOrder s) (lvTrades s)"
    and "\<forall>r \<in> set (lvOrders s). Price r = p \<and> 0 < RemainingQuantity r"
  shows "fillState (lvOrder (matchMarketLevel now u s)) (lvTrades (matchMarketLevel now u s))"
proof -
  have "(\<forall>r \<in> set (lvOrders (matchMarketLevel now u s)). Price r = p \<and> 0 < RemainingQuantity r)
        \<and> fillState (lvOrder (matchMarketLevel now u s)) (lvTrades (matchMarketLevel now u s))"
  proof (rule matchMarketLevel_rule
      [where P = "\<lambda>t. (\<forall>r \<in> set (lvOrders t). Price r = p \<and> 0 < RemainingQuantity r)
                    \<and> fillState (lvOrder t) (lvTrades t)"], goal_cases)
    case 1
    show ?case using assms by simp
  next
    case (2 t)
    have "0 < RemainingQuantity (hd (lvOrders t))" using 2(1,2) by simp
    then have "fillState (lvOrder (matchStep now u t)) (lvTrades (matchStep now u t))"
      using matchStep_fillState [of t now u] 2 by simp
    moreover have "\<forall>r \<in> set (lvOrders (matchStep now u t)). Price r = p \<and> 0 < RemainingQuantity r"
      using matchStep_resting [of t p now u] 2(1,2) by simp
    ultimately show ?case by simp
  qed
  then show ?thesis by simp
qed

text \<open>The matching loops touch neither the identity index nor the order's own side.\<close>

definition sameOwnSide :: "OrderBook \<Rightarrow> Order \<Rightarrow> OrderBook \<Rightarrow> bool" where
  "sameOwnSide ob ord ob' \<longleftrightarrow> orders ob' = orders ob \<and> ownHeap ob' ord = ownHeap ob ord"

lemma afterLevel_sameOwnSide:
  "Side ord1 = Side ord \<Longrightarrow> sameOwnSide ob ord ob1 \<Longrightarrow> sameOwnSide ob ord (afterLevel ob1 ord1 s)"
  by (auto simp: sameOwnSide_def afterLevel_closeLevel setOppositeHeap_def ownHeap_def)

lemma setOppositeHeap_sameOwnSide:
  "Side ord1 = Side ord \<Longrightarrow> sameOwnSide ob ord ob1
     \<Longrightarrow> sameOwnSide ob ord (setOppositeHeap ob1 ord1 h)"
  by (auto simp: sameOwnSide_def setOppositeHeap_def ownHeap_def)

lemma matchMarketLoop_market:
  assumes "bookOk ob" and "fillState ord []"
  shows "case matchMarketLoop now u ob ord [] of
           (ob', ord', ts') \<Rightarrow>
             (bookOk ob' \<and> bookInv ob ord [] ob' ord' ts' \<and> sameOwnSide ob ord ob'
               \<and> fillState ord' ts')
             \<and> \<not> (RemainingQuantity ord' > 0 \<and> Len (oppositeHeap ob' ord') > 0)"
proof (rule matchMarketLoop_rule
    [where P = "\<lambda>ob' ord' ts'. bookOk ob' \<and> bookInv ob ord [] ob' ord' ts'
                  \<and> sameOwnSide ob ord ob' \<and> fillState ord' ts'"], goal_cases)
  case 1
  show ?case using assms bookInv_refl by (simp add: sameOwnSide_def)
next
  case (2 ob1 ord1 ts1 bestLevel)
  have "levelOk bestLevel"
    using Peek_levelOk [OF oppositeHeap_sideOk 2(4)] 2(1) by simp
  then show ?case using 2(5) by (simp add: levelOk_def)
next
  case (3 ob1 ord1 ts1 bestLevel s)
  have ok1: "bookOk ob1" and inv1: "bookInv ob ord [] ob1 ord1 ts1"
    and own1: "sameOwnSide ob ord ob1" and fs1: "fillState ord1 ts1"
    using 3(1) by auto
  have side: "Side ord1 = Side ord" using inv1 by (simp add: bookInv_def sameIdentity_def)
  have lv: "levelOk bestLevel"
    using Peek_levelOk [OF oppositeHeap_sideOk 3(4)] ok1 by simp
  have rs0: "\<forall>r \<in> set (lvOrders (levelState ob1 ord1 ts1 bestLevel)).
          Price r = LevelPrice bestLevel \<and> 0 < RemainingQuantity r"
    using lv by (simp add: levelState_def levelOk_def)
  then have rs: "\<forall>r \<in> set (lvOrders s). Price r = LevelPrice bestLevel \<and> 0 < RemainingQuantity r"
    unfolding 3(6) by (rule matchMarketLevel_resting)
  have b: "bookOk (afterLevel ob1 ord1 s)"
    using afterLevel_bookOk [OF ok1 3(4) rs] .
  have li: "levelInv (levelState ob1 ord1 ts1 bestLevel) s"
    unfolding 3(6) by (rule matchMarketLevel_levelInv)
  have i: "bookInv ob ord [] (afterLevel ob1 ord1 s) (lvOrder s) (lvTrades s)"
    using li by (rule bookInv_afterLevel [OF inv1 3(4)])
  have o: "sameOwnSide ob ord (afterLevel ob1 ord1 s)"
    using afterLevel_sameOwnSide [OF side own1] .
  have "fillState (lvOrder (levelState ob1 ord1 ts1 bestLevel))
          (lvTrades (levelState ob1 ord1 ts1 bestLevel))"
    using fs1 by (simp add: levelState_def)
  then have f: "fillState (lvOrder s) (lvTrades s)"
    unfolding 3(6) using rs0 by (rule matchMarketLevel_fillState)
  show ?case using b i o f by simp
qed

text \<open>
  Claim C5. Let a Market order, pending and unfilled as \<open>NewOrder\<close> makes it, be submitted to
  an engine reached by submissions. The order is not put into the book: the identity index
  of the symbol's book and the order's own side are as before the call, and every order left
  on the opposite side rested there before. If the order comes back with quantity left, the
  opposite side is empty (the remainder is dropped), and its status is PartiallyFilled when
  the call made a trade and Pending when it made none.
\<close>

theorem market_order_never_rests:
  assumes "reachable me" and "Type ord = OrderTypeMarket"
    and "Status ord = OrderStatusPending" and "FilledQuantity ord = 0"
    and "SubmitOrder now u me ord = (me', ord', ts)"
  shows "\<exists>ob'. orderBooks me' (Symbol ord) = Some ob'
       \<and> orders ob' = orders (snd (GetOrCreateOrderBook now me (Symbol ord)))
       \<and> ownHeap ob' ord = ownHeap (snd (GetOrCreateOrderBook now me (Symbol ord))) ord
       \<and> (\<forall>r' \<in> restingOrders (oppositeHeap ob' ord).
            \<exists>r \<in> restingOrders
                   (oppositeHeap (snd (GetOrCreateOrderBook now me (Symbol ord))) ord).
              ID r' = ID r \<and> Price r' = Price r)
       \<and> (0 < RemainingQuantity ord' \<longrightarrow>
            Len (oppositeHeap ob' ord) = 0
          \<and> Status ord' = (if ts = [] then OrderStatusPending else OrderStatusPartial))"
proof -
  obtain me1 ob where g: "GetOrCreateOrderBook now me (Symbol ord) = (me1, ob)"
    by (cases "GetOrCreateOrderBook now me (Symbol ord)")
  have ob: "bookOk ob"
    using g reachable_engineOk [OF assms(1)] NewOrderBook_bookOk
    by (auto simp: GetOrCreateOrderBook_def engineOk_def Let_def split: option.splits)
  have fs: "fillState ord []"
    using assms(3,4) by (simp add: fillState_def)
  obtain ob' o' ts' where l: "matchMarketLoop now u ob ord [] = (ob', o', ts')"
    by (cases "matchMarketLoop now u ob ord []")
  have res: "me' = me1 \<lparr> orderBooks := (orderBooks me1) (Symbol ord \<mapsto> ob'),
                         trades := (if length ts' > 0 then trades me1 @ ts' else trades me1) \<rparr>"
    "ord' = o'" "ts = ts'"
    using assms(2,5) by (auto simp: SubmitOrder_def g matchMarketOrder_def l)
  note m = matchMarketLoop_market [OF ob fs, where now = now and u = u]
  have inv: "bookInv ob ord [] ob' o' ts'" and own: "sameOwnSide ob ord ob'"
    and st: "fillState o' ts'"
    and stop: "\<not> (RemainingQuantity o' > 0 \<and> Len (oppositeHeap ob' o') > 0)"
    using m l by auto
  have side: "Side o' = Side ord" using inv by (simp add: bookInv_def sameIdentity_def)
  have opp: "oppositeHeap ob' o' = oppositeHeap ob' ord"
    using side by (simp add: oppositeHeap_def)
  have "Len (oppositeHeap ob' ord) = 0
        \<and> Status o' = (if ts' = [] then OrderStatusPending else OrderStatusPartial)"
    if "0 < RemainingQuantity o'"
    using that stop st opp by (auto simp: fillState_def IsFilled_Remaining split: if_splits)
  then show ?thesis
    using inv own by (simp add: res g bookInv_def sameOwnSide_def)
qed

text \<open>
  A sell order of 50 rests at 150; a market buy order of 100 (identifier 2) trades 50, comes
  back partially filled with 50 left, and the book is empty on both sides and does not
  index it.
\<close>

theorem market_order_never_rests_witness:
  "reachable (fst (SubmitOrder 0 100 NewMatchingEngine
       (NewOrder 1 0 ''AAPL'' OrderTypeLimit OrderSideSell 50 150)))
   \<and> 0 < RemainingQuantity (fst (snd (SubmitOrder 1 100
       (fst (SubmitOrder 0 100 NewMatchingEngine
          (NewOrder 1 0 ''AAPL'' OrderTypeLimit OrderSideSell 50 150)))
       (NewOrder 2 1 ''AAPL'' OrderTypeMarket OrderSideBuy 100 0))))
   \<and> snd (snd (SubmitOrder 1 100
       (fst (SubmitOrder 0 100 NewMatchingEngine
          (NewOrder 1 0 ''AAPL'' OrderTypeLimit OrderSideSell 50 150)))
       (NewOrder 2 1 ''AAPL'' OrderTypeMarket OrderSideBuy 100 0))) \<noteq> []
   \<and> (\<exists>ob'. orderBooks (fst (SubmitOrder 1 100
       (fst (SubmitOrder 0 100 NewMatchingEngine
          (NewOrder 1 0 ''AAPL'' OrderTypeLimit OrderSideSell 50 150)))
       (NewOrder 2 1 ''AAPL'' OrderTypeMarket OrderSideBuy 100 0))) ''AAPL'' = Some ob'
         \<and> Len (Asks ob') = 0 \<and> Len (Bids ob') = 0 \<and> orders ob' 2 = None)
   \<and> Status (fst (snd (SubmitOrder 1 100
       (fst (SubmitOrder 0 100 NewMatchingEngine
          (NewOrder 1 0 ''AAPL'' OrderTypeLimit OrderSideSell 50 150)))
       (NewOrder 2 1 ''AAPL'' OrderTypeMarket OrderSideBuy 100 0)))) = OrderStatusPartial"
proof -
  let ?e = "fst (SubmitOrder 0 100 NewMatchingEngine
       (NewOrder 1 0 ''AAPL'' OrderTypeLimit OrderSideSell 50 150))"
  let ?m = "NewOrder 2 1 ''AAPL'' OrderTypeMarket OrderSideBuy 100 0"
  let ?r = "SubmitOrder 1 100 ?e ?m"
  have r: "reachable ?e"
    by (intro reachable.intros)
  have o: "Type ?m = OrderTypeMarket" "Status ?m = OrderStatusPending" "FilledQuantity ?m = 0"
    by (simp_all add: NewOrder_def)
  have s: "?r = (fst ?r, fst (snd ?r), snd (snd ?r))"
    by simp
  have ord: "Side ?m = OrderSideBuy" "Symbol ?m = ''AAPL''"
    by (simp_all add: NewOrder_def)
  have rem: "0 < RemainingQuantity (fst (snd ?r))" and ts: "snd (snd ?r) \<noteq> []"
    by code_simp+
  have pre: "orders (snd (GetOrCreateOrderBook 1 ?e ''AAPL'')) 2 = None"
    "Len (Bids (snd (GetOrCreateOrderBook 1 ?e ''AAPL''))) = 0"
    by code_simp+
  obtain ob' where A: "orderBooks (fst ?r) (Symbol ?m) = Some ob'"
    and B: "orders ob' = orders (snd (GetOrCreateOrderBook 1 ?e (Symbol ?m)))"
    and C: "ownHeap ob' ?m = ownHeap (snd (GetOrCreateOrderBook 1 ?e (Symbol ?m))) ?m"
    and D: "0 < RemainingQuantity (fst (snd ?r)) \<longrightarrow>
              Len (oppositeHeap ob' ?m) = 0
            \<and> Status (fst (snd ?r))
                = (if snd (snd ?r) = [] then OrderStatusPending else OrderStatusPartial)"
    using market_order_never_rests [OF r o s] by blast
  have ob': "orderBooks (fst ?r) ''AAPL'' = Some ob'"
    "Status (fst (snd ?r)) = OrderStatusPartial"
    using A D rem ts by (simp_all only: ord if_False)
  have "Len (oppositeHeap ob' ?m) = 0"
    using D rem by blast
  then have "Len (Asks ob') = 0" "Len (Bids ob') = 0" "orders ob' 2 = None"
    using B C pre by (simp_all add: ownHeap_def oppositeHeap_def NewOrder_def)
  then show ?thesis
    using r rem ts ob' by blast
qed

section \<open>Time priority inside a level\<close>














text \<open>The same through \<open>SubmitOrder\<close>: one trade, against the first of the two orders.\<close>

lemma time_priority_scenario:
  "map SellOrderID (snd (snd (SubmitOrder 2 100
      (fst (SubmitOrder 1 100
         (fst (SubmitOrder 0 100 NewMatchingEngine
            (NewOrder 1 0 ''AAPL'' OrderTypeLimit OrderSideSell 50 150)))
         (NewOrder 2 1 ''AAPL'' OrderTypeLimit OrderSideSell 50 150)))
      (NewOrder 3 2 ''AAPL'' OrderTypeLimit OrderSideBuy 50 150)))) = [1]
   \<and> map (\<lambda>l. map (\<lambda>r. (ID r, RemainingQuantity r)) (Orders l))
       (Levels (Asks (the (orderBooks (fst (SubmitOrder 2 100
          (fst (SubmitOrder 1 100
             (fst (SubmitOrder 0 100 NewMatchingEngine
                (NewOrder 1 0 ''AAPL'' OrderTypeLimit OrderSideSell 50 150)))
             (NewOrder 2 1 ''AAPL'' OrderTypeLimit OrderSideSell 50 150)))
          (NewOrder 3 2 ''AAPL'' OrderTypeLimit OrderSideBuy 50 150))) ''AAPL''))))
     = [[(2, 50)]]"
  by code_simp

section \<open>Stop-loss orders\<close>

lemma appendAtPrice_holds:
  "appendAtPrice ord ls = Some ls' \<Longrightarrow> \<exists>l' \<in> set ls'. ord \<in> set (Orders l')"
  by (induction ls arbitrary: ls') (auto split: if_splits)

lemma AddOrder_rests: "ord \<in> restingOrders (AddOrder h ord)"
proof (cases "appendAtPrice ord (Levels h)")
  case None
  then show ?thesis
    by (simp add: AddOrder_def restingOrders_def heap_Push_set)
next
  case (Some ls')
  then show ?thesis
    using appendAtPrice_holds [OF Some] by (simp add: AddOrder_def restingOrders_def)
qed

lemma BookAddOrder_rests: "ord \<in> restingOrders (ownHeap (BookAddOrder now ob ord) ord)"
  using AddOrder_rests by (simp add: BookAddOrder_def Let_def ownHeap_def)

text \<open>
  Claim C10. Submitting an order whose type is StopLoss gives, in every respect (engine,
  order as returned, trades), what submitting the same order with type Limit gives. The
  order as returned has type Limit. When it has quantity left, the book of its symbol holds
  it as it is returned, so with type Limit: in the identity index under its identifier, and
  in a level of its own side.
\<close>

theorem StopLoss_submitted_as_Limit:
  "SubmitOrder now u me (ord \<lparr> Type := OrderTypeStopLoss \<rparr>)
     = SubmitOrder now u me (ord \<lparr> Type := OrderTypeLimit \<rparr>)
   \<and> Type (fst (snd (SubmitOrder now u me (ord \<lparr> Type := OrderTypeStopLoss \<rparr>))))
       = OrderTypeLimit
   \<and> (0 < RemainingQuantity (fst (snd (SubmitOrder now u me (ord \<lparr> Type := OrderTypeStopLoss \<rparr>))))
        \<longrightarrow> (\<exists>ob'. orderBooks (fst (SubmitOrder now u me (ord \<lparr> Type := OrderTypeStopLoss \<rparr>)))
                      (Symbol ord) = Some ob'
                 \<and> orders ob' (ID ord)
                     = Some (fst (snd (SubmitOrder now u me (ord \<lparr> Type := OrderTypeStopLoss \<rparr>))))
                 \<and> fst (snd (SubmitOrder now u me (ord \<lparr> Type := OrderTypeStopLoss \<rparr>)))
                     \<in> restingOrders (ownHeap ob' ord)))"
proof -
  let ?sl = "ord \<lparr> Type := OrderTypeStopLoss \<rparr>"
  let ?lim = "ord \<lparr> Type := OrderTypeLimit \<rparr>"
  obtain me1 ob where g: "GetOrCreateOrderBook now me (Symbol ord) = (me1, ob)"
    by (cases "GetOrCreateOrderBook now me (Symbol ord)")
  obtain ob' ord' ts where m: "matchLimitOrder now u ob ?lim = (ob', ord', ts)"
    by (cases "matchLimitOrder now u ob ?lim")
  have res: "SubmitOrder now u me ?sl
      = (me1 \<lparr> orderBooks := (orderBooks me1) (Symbol ord \<mapsto> ob'),
               trades := (if length ts > 0 then trades me1 @ ts else trades me1) \<rparr>, ord', ts)"
    by (simp add: SubmitOrder_def g m)
  have res': "SubmitOrder now u me ?lim
      = (me1 \<lparr> orderBooks := (orderBooks me1) (Symbol ord \<mapsto> ob'),
               trades := (if length ts > 0 then trades me1 @ ts else trades me1) \<rparr>, ord', ts)"
    by (simp add: SubmitOrder_def g m)
  have same: "sameIdentity ord' ?lim"
    using matchLimitOrder_sameIdentity [of now u ob ?lim] m by simp
  have rest: "orders ob' (ID ord) = Some ord' \<and> ord' \<in> restingOrders (ownHeap ob' ord)"
    if "0 < RemainingQuantity ord'"
  proof -
    obtain ob2 ord2 ts2 where l: "matchLimitLoop now u ob ?lim [] = (ob2, ord2, ts2)"
      by (cases "matchLimitLoop now u ob ?lim []")
    have r: "ord2 = ord'" "ob' = BookAddOrder now ob2 ord2"
      using m l that by (auto simp: matchLimitOrder_def split: if_splits)
    have "ownHeap ob' ord = ownHeap ob' ord'"
      using same by (simp add: ownHeap_def sameIdentity_def)
    then show ?thesis
      using BookAddOrder_orders [of now ob2 ord2] BookAddOrder_rests [of ord2 now ob2] same r
      by (simp add: sameIdentity_def)
  qed
  show ?thesis
    using same rest by (simp add: res res' sameIdentity_def)
qed

text \<open>A stop-loss sell order submitted to the empty engine rests as a limit order.\<close>

theorem StopLoss_submitted_as_Limit_witness:
  "Type (fst (snd (SubmitOrder 0 100 NewMatchingEngine
       (NewOrder 1 0 ''AAPL'' OrderTypeStopLoss OrderSideSell 100 150)))) = OrderTypeLimit
   \<and> 0 < RemainingQuantity (fst (snd (SubmitOrder 0 100 NewMatchingEngine
       (NewOrder 1 0 ''AAPL'' OrderTypeStopLoss OrderSideSell 100 150))))
   \<and> (\<exists>ob'. orderBooks (fst (SubmitOrder 0 100 NewMatchingEngine
                 (NewOrder 1 0 ''AAPL'' OrderTypeStopLoss OrderSideSell 100 150))) ''AAPL''
               = Some ob'
           \<and> orders ob' 1 = Some (fst (snd (SubmitOrder 0 100 NewMatchingEngine
                 (NewOrder 1 0 ''AAPL'' OrderTypeStopLoss OrderSideSell 100 150))))
           \<and> fst (snd (SubmitOrder 0 100 NewMatchingEngine
                 (NewOrder 1 0 ''AAPL'' OrderTypeStopLoss OrderSideSell 100 150)))
               \<in> restingOrders (Asks ob'))"
proof -
  let ?o = "NewOrder 1 0 ''AAPL'' OrderTypeStopLoss OrderSideSell 100 150"
  have a: "?o \<lparr> Type := OrderTypeStopLoss \<rparr> = ?o"
    by (simp add: NewOrder_def)
  have b: "0 < RemainingQuantity (fst (snd (SubmitOrder 0 100 NewMatchingEngine ?o)))"
    by code_simp
  have c: "ID ?o = 1" "Symbol ?o = ''AAPL''" "ownHeap ob' ?o = Asks ob'" for ob'
    by (simp_all add: NewOrder_def ownHeap_def)
  show ?thesis
    using StopLoss_submitted_as_Limit [of 0 100 NewMatchingEngine ?o] b
    unfolding a c by blast
qed

end
